theory Spec2Isabelle
  imports Complex_Main
begin

section \<open>JavaScript strings\<close>

text \<open>
  A JavaScript string is a sequence of UTF-16 code units. A code unit is held as a natural
  number, so that the currency signs and the Unicode white space the parser looks at are
  ordinary values. \<open>js\<close> turns an ASCII literal into such a string.
\<close>

type_synonym jschar = nat
type_synonym jsstring = "jschar list"

definition js :: "string \<Rightarrow> jsstring" where
  "js s = map of_char s"

definition isDigit :: "jschar \<Rightarrow> bool" where
  \<comment> \<open>the class \<open>\d\<close>\<close>
  "isDigit c = (48 \<le> c \<and> c \<le> 57)"

definition isUpperAZ :: "jschar \<Rightarrow> bool" where
  \<comment> \<open>the class \<open>[A-Z]\<close>\<close>
  "isUpperAZ c = (65 \<le> c \<and> c \<le> 90)"

definition isLowerAZ :: "jschar \<Rightarrow> bool" where
  "isLowerAZ c = (97 \<le> c \<and> c \<le> 122)"

definition isSpace :: "jschar \<Rightarrow> bool" where
  \<comment> \<open>the class \<open>\s\<close>, which is also what \<open>trim\<close> strips: WhiteSpace and LineTerminator\<close>
  "isSpace c = (c = 9 \<or> c = 10 \<or> c = 11 \<or> c = 12 \<or> c = 13 \<or> c = 32 \<or> c = 160 \<or> c = 5760
     \<or> (8192 \<le> c \<and> c \<le> 8202) \<or> c = 8232 \<or> c = 8233 \<or> c = 8239 \<or> c = 8287
     \<or> c = 12288 \<or> c = 65279)"

definition isComma :: "jschar \<Rightarrow> bool" where
  "isComma c = (c = 44)"

definition isDot :: "jschar \<Rightarrow> bool" where
  "isDot c = (c = 46)"

definition isDigitOrComma :: "jschar \<Rightarrow> bool" where
  \<comment> \<open>the class \<open>[\d,]\<close>\<close>
  "isDigitOrComma c = (isDigit c \<or> isComma c)"

definition asciiLower :: "jschar \<Rightarrow> jschar" where
  "asciiLower c = (if isUpperAZ c then c + 32 else c)"

definition asciiUpper :: "jschar \<Rightarrow> jschar" where
  "asciiUpper c = (if isLowerAZ c then c - 32 else c)"

definition lowerUnit :: "jschar \<Rightarrow> jsstring" where
  \<comment> \<open>\<open>toLowerCase\<close> on one code unit. The only characters outside ASCII whose lower case
      holds an ASCII letter are U+212A (Kelvin sign, to k) and U+0130 (to i and U+0307);
      every other one maps to code units outside ASCII and is left as it is, which no
      test of the parser can tell apart (it only looks for ASCII keywords).\<close>
  "lowerUnit c = (if isUpperAZ c then [c + 32]
                  else if c = 8490 then [107]
                  else if c = 304 then [105, 775]
                  else [c])"

definition toLowerCase :: "jsstring \<Rightarrow> jsstring" where
  "toLowerCase s = concat (map lowerUnit s)"

definition toUpperCaseAscii :: "jsstring \<Rightarrow> jsstring" where
  \<comment> \<open>\<open>toUpperCase\<close>, which the parser applies to its own lower-case ASCII constants only\<close>
  "toUpperCaseAscii s = map asciiUpper s"

fun startsWith :: "jsstring \<Rightarrow> jsstring \<Rightarrow> bool" where
  "startsWith s [] = True"
| "startsWith [] (p # ps) = False"
| "startsWith (c # s) (p # ps) = (c = p \<and> startsWith s ps)"

fun strIncludes :: "jsstring \<Rightarrow> jsstring \<Rightarrow> bool" where
  "strIncludes [] sub = (sub = [])"
| "strIncludes (c # s) sub = (startsWith (c # s) sub \<or> strIncludes s sub)"

definition trim :: "jsstring \<Rightarrow> jsstring" where
  "trim s = rev (dropWhile isSpace (rev (dropWhile isSpace s)))"

fun splitOn :: "jschar \<Rightarrow> jsstring \<Rightarrow> jsstring \<Rightarrow> jsstring list" where
  \<comment> \<open>\<open>split\<close> on a one-character string; the second argument is the piece being read\<close>
  "splitOn d piece [] = [piece]"
| "splitOn d piece (c # s) =
     (if c = d then piece # splitOn d [] s else splitOn d (piece @ [c]) s)"

definition removeCommas :: "jsstring \<Rightarrow> jsstring" where
  \<comment> \<open>\<open>replace(/,/g, '')\<close>\<close>
  "removeCommas s = filter (\<lambda>c. \<not> isComma c) s"

fun joinWith :: "jsstring \<Rightarrow> jsstring list \<Rightarrow> jsstring" where
  "joinWith sep [] = []"
| "joinWith sep [x] = x"
| "joinWith sep (x # y # ys) = x @ sep @ joinWith sep (y # ys)"

section \<open>Regular expressions\<close>

text \<open>
  The patterns of the parser are built from combinators with the backtracking semantics of
  the JavaScript matcher: a pattern maps a state (the groups captured so far and the rest
  of the input) to the list of states it can end in, in the order the matcher tries them.
  The first element of the list is the match JavaScript reports. Every quantifier of the
  parser stands on a character class, so \<open>rep\<close> covers them: it is greedy, longest first.
\<close>

type_synonym rxstate = "jsstring list \<times> jsstring"
type_synonym rx = "rxstate \<Rightarrow> rxstate list"

definition cls :: "(jschar \<Rightarrow> bool) \<Rightarrow> rx" where
  "cls P st = (case snd st of [] \<Rightarrow> [] | c # r \<Rightarrow> if P c then [(fst st, r)] else [])"

fun repFrom :: "(jschar \<Rightarrow> bool) \<Rightarrow> nat \<Rightarrow> nat option \<Rightarrow> jsstring \<Rightarrow> jsstring list" where
  "repFrom P lo hi [] = (if lo = 0 then [[]] else [])"
| "repFrom P lo hi (c # s) =
     (if P c \<and> hi \<noteq> Some 0 then repFrom P (lo - 1) (map_option (\<lambda>h. h - 1) hi) s else [])
     @ (if lo = 0 then [c # s] else [])"

definition rep :: "(jschar \<Rightarrow> bool) \<Rightarrow> nat \<Rightarrow> nat option \<Rightarrow> rx" where
  \<comment> \<open>\<open>[class]{lo,hi}\<close>; \<open>hi = None\<close> is unbounded\<close>
  "rep P lo hi st = map (Pair (fst st)) (repFrom P lo hi (snd st))"

definition seq :: "rx \<Rightarrow> rx \<Rightarrow> rx" where
  "seq p q st = concat (map q (p st))"

definition alt :: "rx \<Rightarrow> rx \<Rightarrow> rx" where
  "alt p q st = p st @ q st"

definition opt :: "rx \<Rightarrow> rx" where
  "opt p st = p st @ [st]"

definition eps :: rx where
  "eps st = [st]"

definition eos :: rx where
  \<comment> \<open>\<open>$\<close> without the m flag\<close>
  "eos st = (if snd st = [] then [st] else [])"

definition grp :: "rx \<Rightarrow> rx" where
  \<comment> \<open>a capturing group: what it consumed is appended to the groups\<close>
  "grp p st = map (\<lambda>(cs, r). (cs @ [take (length (snd st) - length r) (snd st)], r)) (p st)"

fun seqs :: "rx list \<Rightarrow> rx" where
  "seqs [] = eps"
| "seqs (p # ps) = seq p (seqs ps)"

fun alts :: "rx list \<Rightarrow> rx" where
  "alts [] = (\<lambda>st. [])"
| "alts (p # ps) = alt p (alts ps)"

definition chr :: "jschar \<Rightarrow> rx" where
  "chr c = cls (\<lambda>x. x = c)"

definition chri :: "jschar \<Rightarrow> rx" where
  \<comment> \<open>one character under the i flag: without the u flag a pattern character of ASCII
      matches its two ASCII cases and nothing else\<close>
  "chri c = cls (\<lambda>x. asciiLower x = asciiLower c)"

definition lit :: "jsstring \<Rightarrow> rx" where
  "lit s = seqs (map chr s)"

definition liti :: "jsstring \<Rightarrow> rx" where
  "liti s = seqs (map chri s)"

fun execFrom :: "rx \<Rightarrow> nat \<Rightarrow> jsstring \<Rightarrow> (nat \<times> jsstring \<times> jsstring list) option" where
  "execFrom p i [] = (case p ([], []) of [] \<Rightarrow> None | (cs, r) # _ \<Rightarrow> Some (i, [], cs))"
| "execFrom p i (c # s) =
     (case p ([], c # s) of
        [] \<Rightarrow> execFrom p (Suc i) s
      | (cs, r) # _ \<Rightarrow> Some (i, take (length (c # s) - length r) (c # s), cs))"

definition exec :: "rx \<Rightarrow> jsstring \<Rightarrow> (nat \<times> jsstring \<times> jsstring list) option" where
  \<comment> \<open>\<open>s.match(p)\<close> without the g flag: the leftmost match as (index, match[0], the groups
      match[1], match[2], ...), or None for null\<close>
  "exec p s = execFrom p 0 s"

definition test :: "rx \<Rightarrow> jsstring \<Rightarrow> bool" where
  "test p s = (exec p s \<noteq> None)"

definition testAnchored :: "rx \<Rightarrow> jsstring \<Rightarrow> bool" where
  \<comment> \<open>\<open>test\<close> for a pattern that begins with \<open>^\<close>: it can match at index 0 only\<close>
  "testAnchored p s = (p ([], s) \<noteq> [])"

fun matchAllFrom :: "rx \<Rightarrow> nat \<Rightarrow> jsstring \<Rightarrow> jsstring list" where
  \<comment> \<open>\<open>s.match(p)\<close> with the g flag. The number counts the characters still covered by the
      match before; after an empty match the search moves on by one character.\<close>
  "matchAllFrom p skip [] = (if skip = 0 \<and> p ([], []) \<noteq> [] then [[]] else [])"
| "matchAllFrom p skip (c # s) =
     (if 0 < skip then matchAllFrom p (skip - 1) s
      else case p ([], c # s) of
             [] \<Rightarrow> matchAllFrom p 0 s
           | (cs, r) # _ \<Rightarrow>
               (let m = take (length (c # s) - length r) (c # s)
                in m # matchAllFrom p (length m - 1) s))"

definition matchAll :: "rx \<Rightarrow> jsstring \<Rightarrow> jsstring list" where
  \<comment> \<open>the empty list stands for null (no match)\<close>
  "matchAll p s = matchAllFrom p 0 s"

fun splitFrom :: "rx \<Rightarrow> nat \<Rightarrow> jsstring \<Rightarrow> jsstring \<Rightarrow> jsstring list" where
  \<comment> \<open>\<open>s.split(p)\<close> for a pattern without groups: the number counts the characters of the
      separator still to skip, the first string is the piece being read\<close>
  "splitFrom p skip piece [] = [piece]"
| "splitFrom p skip piece (c # s) =
     (if 0 < skip then splitFrom p (skip - 1) piece s
      else case p ([], c # s) of
             [] \<Rightarrow> splitFrom p 0 (piece @ [c]) s
           | (cs, r) # _ \<Rightarrow>
               (let n = length (c # s) - length r
                in if n = 0 then (if piece = [] then splitFrom p 0 [c] s
                                  else piece # splitFrom p 0 [c] s)
                   else piece # splitFrom p (n - 1) [] s))"

definition split :: "rx \<Rightarrow> jsstring \<Rightarrow> jsstring list" where
  "split p s = (if s = [] then (if p ([], []) \<noteq> [] then [] else [[]]) else splitFrom p 0 [] s)"

section \<open>Numbers\<close>

text \<open>
  A JavaScript number is modelled as NaN or the rational value of a double. \<open>parseFloat\<close>
  and the division round their exact result to the nearest double, ties to the even
  significand (\<open>roundDouble\<close>): 53 bits of significand, the exponent bounded below (subnormal
  numbers, underflow to 0) and not above, so an overflow to Infinity and the infinities are
  outside the model. \<open>parseFloat\<close> is modelled on the strings the parser hands it: unsigned
  decimal literals, with no exponent.
\<close>

datatype jsnum = NaN | Num rat

definition pow2 :: "int \<Rightarrow> rat" where
  "pow2 e = (if 0 \<le> e then 2 ^ nat e else 1 / 2 ^ nat (- e))"

function log2Up :: "rat \<Rightarrow> int" where
  \<comment> \<open>the integer part of the binary logarithm of a number from 1 on\<close>
  "log2Up x = (if x < 2 then 0 else log2Up (x / 2) + 1)"
  by pat_completeness auto
termination
proof (relation "measure (\<lambda>x. nat \<lfloor>x\<rfloor>)")
  fix x :: rat assume "\<not> x < 2"
  then have a: "2 \<le> x" by simp
  then have "x / 2 \<le> x - 1" by simp
  then have "\<lfloor>x / 2\<rfloor> \<le> \<lfloor>x - 1\<rfloor>" by (rule floor_mono)
  moreover have "2 \<le> \<lfloor>x\<rfloor>" using a by (simp add: le_floor_iff)
  ultimately show "(x / 2, x) \<in> measure (\<lambda>x. nat \<lfloor>x\<rfloor>)" by simp
qed simp

function log2Down :: "rat \<Rightarrow> int" where
  \<comment> \<open>the integer part of the binary logarithm of a positive number below 1\<close>
  "log2Down x = (if x \<le> 0 \<or> 1 \<le> x then 0 else log2Down (2 * x) - 1)"
  by pat_completeness auto
termination
proof (relation "measure (\<lambda>x. nat \<lfloor>1 / x\<rfloor>)")
  fix x :: rat assume "\<not> (x \<le> 0 \<or> 1 \<le> x)"
  then have a: "0 < x" "x < 1" by simp_all
  have b: "1 \<le> \<lfloor>1 / x\<rfloor>" using a by (simp add: le_floor_iff)
  have "1 / (2 * x) < of_int \<lfloor>1 / x\<rfloor>"
  proof -
    have "1 / x < of_int \<lfloor>1 / x\<rfloor> + 1" by linarith
    moreover have "(1::rat) \<le> of_int \<lfloor>1 / x\<rfloor>" using b by simp
    ultimately have "1 / x < 2 * of_int \<lfloor>1 / x\<rfloor>" by linarith
    moreover have "1 / (2 * x) = (1 / x) / 2" by simp
    ultimately show ?thesis by linarith
  qed
  then have "\<lfloor>1 / (2 * x)\<rfloor> < \<lfloor>1 / x\<rfloor>" by (simp add: floor_less_iff)
  then show "(2 * x, x) \<in> measure (\<lambda>x. nat \<lfloor>1 / x\<rfloor>)" using b by simp
qed simp

declare log2Up.simps [simp del] log2Down.simps [simp del]

definition floorLog2 :: "rat \<Rightarrow> int" where
  "floorLog2 x = (if 1 \<le> x then log2Up x else log2Down x)"

definition ulp :: "rat \<Rightarrow> rat" where
  \<comment> \<open>the distance between the doubles around a positive number: 52 binary places below
      its leading bit, and never below the least subnormal number\<close>
  "ulp x = pow2 (max (floorLog2 x) (- 1022) - 52)"

definition roundHalfEven :: "rat \<Rightarrow> int" where
  "roundHalfEven m =
     (if m - of_int \<lfloor>m\<rfloor> < 1 / 2 then \<lfloor>m\<rfloor>
      else if 1 / 2 < m - of_int \<lfloor>m\<rfloor> then \<lfloor>m\<rfloor> + 1
      else if even \<lfloor>m\<rfloor> then \<lfloor>m\<rfloor> else \<lfloor>m\<rfloor> + 1)"

definition roundDouble :: "rat \<Rightarrow> rat" where
  \<comment> \<open>the double nearest to a rational number, ties to even\<close>
  "roundDouble x = sgn x * of_int (roundHalfEven (\<bar>x\<bar> / ulp \<bar>x\<bar>)) * ulp \<bar>x\<bar>"

definition digitVal :: "jschar \<Rightarrow> nat" where
  "digitVal c = c - 48"

definition digitsVal :: "jsstring \<Rightarrow> nat" where
  "digitsVal ds = foldl (\<lambda>a c. 10 * a + digitVal c) 0 ds"

definition parseFloat :: "jsstring \<Rightarrow> jsnum" where
  "parseFloat s =
     (let ip = takeWhile isDigit s;
          r = dropWhile isDigit s;
          fp = (case r of [] \<Rightarrow> [] | c # r' \<Rightarrow> if isDot c then takeWhile isDigit r' else [])
      in if ip = [] \<and> fp = [] then NaN
         else Num (roundDouble (of_nat (digitsVal ip) + of_nat (digitsVal fp) / 10 ^ length fp)))"

definition jsGt :: "jsnum \<Rightarrow> jsnum \<Rightarrow> bool" where
  "jsGt a b = (case (a, b) of (Num x, Num y) \<Rightarrow> y < x | _ \<Rightarrow> False)"

definition jsStrictNeq :: "jsnum \<Rightarrow> jsnum \<Rightarrow> bool" where
  "jsStrictNeq a b = (case (a, b) of (Num x, Num y) \<Rightarrow> x \<noteq> y | _ \<Rightarrow> True)"

definition jsDiv :: "jsnum \<Rightarrow> jsnum \<Rightarrow> jsnum" where
  \<comment> \<open>a division by zero gives an infinity or NaN in JavaScript; the parser divides by a
      number it has tested to be positive\<close>
  "jsDiv a b = (case (a, b) of
       (Num x, Num y) \<Rightarrow> if y = 0 then NaN else Num (roundDouble (x / y))
     | _ \<Rightarrow> NaN)"

section \<open>Line items (parseItems)\<close>

record lineItem =
  description :: jsstring
  quantity :: jsnum
  unit_price :: "jsnum option"
  total_price :: jsnum
  serial_no :: nat

definition totalsKeywords :: "jsstring list" where
  "totalsKeywords = [js ''subtotal'', js ''total'', js ''grand'', js ''tax'', js ''vat'', js ''gst'']"

definition itemsEnd :: "jsstring list \<Rightarrow> nat" where
  \<comment> \<open>the index of the first line holding a totals keyword, or the number of lines\<close>
  "itemsEnd lines =
     length (takeWhile (\<lambda>l. \<not> list_ex (\<lambda>kw. strIncludes (toLowerCase l) kw) totalsKeywords) lines)"

definition rx_price :: rx where
  \<comment> \<open>\<open>/([\d,]+\.\d{2})\s*$/\<close>\<close>
  "rx_price = seqs [grp (seqs [rep isDigitOrComma 1 None, cls isDot, rep isDigit 2 (Some 2)]),
                    rep isSpace 0 None, eos]"

definition rx_spaces2 :: rx where
  \<comment> \<open>\<open>/\s{2,}/\<close>\<close>
  "rx_spaces2 = rep isSpace 2 None"

definition rx_spaces :: rx where
  \<comment> \<open>\<open>/\s+/\<close>\<close>
  "rx_spaces = rep isSpace 1 None"

definition rx_qty :: rx where
  \<comment> \<open>\<open>/(\d+\.?\d*)x?/i\<close>\<close>
  "rx_qty = seqs [grp (seqs [rep isDigit 1 None, opt (cls isDot), rep isDigit 0 None]),
                  opt (chri 120)]"

definition rx_money :: rx where
  \<comment> \<open>\<open>/^[\d,]+\.\d{2}$/\<close>, used with \<open>testAnchored\<close>\<close>
  "rx_money = seqs [rep isDigitOrComma 1 None, cls isDot, rep isDigit 2 (Some 2), eos]"

definition partStep :: "jsnum \<Rightarrow> jsnum \<times> jsnum option \<Rightarrow> jsstring \<Rightarrow> jsnum \<times> jsnum option" where
  \<comment> \<open>the body of the loop over parts[1..]; the state is (qty, unitPrice)\<close>
  "partStep totalPrice st part =
     (case exec rx_qty part of
        Some (i, m, caps) \<Rightarrow> (parseFloat (caps ! 0), snd st)
      | None \<Rightarrow>
          if testAnchored rx_money part then
            (let val = parseFloat (removeCommas part)
             in if snd st = None \<and> jsStrictNeq val totalPrice then (fst st, Some val) else st)
          else st)"

definition itemStep :: "lineItem list \<Rightarrow> jsstring \<Rightarrow> lineItem list" where
  \<comment> \<open>the body of the loop over the lines of the items region\<close>
  "itemStep items line =
     (case exec rx_price line of
        None \<Rightarrow> items
      | Some (i, m, caps) \<Rightarrow>
         (let totalPrice = parseFloat (removeCommas (caps ! 0));
              parts0 = split rx_spaces2 line;
              parts = (if length parts0 < 2 then split rx_spaces line else parts0);
              descr = (case parts of [] \<Rightarrow> [] | p # _ \<Rightarrow> p);
              st = foldl (partStep totalPrice) (Num 1, None) (drop 1 parts);
              qty = fst st;
              unitPrice = (if snd st = None \<and> jsGt qty (Num 0)
                           then Some (jsDiv totalPrice qty) else snd st)
          in items @ [\<lparr>description = descr, quantity = qty, unit_price = unitPrice,
                        total_price = totalPrice, serial_no = length items + 1\<rparr>]))"

definition parseItems :: "jsstring list \<Rightarrow> lineItem list" where
  "parseItems lines = foldl itemStep [] (take (itemsEnd lines) lines)"

section \<open>Totals and tax (extractTotals)\<close>

definition jsMax2 :: "jsnum \<Rightarrow> jsnum \<Rightarrow> jsnum" where
  "jsMax2 a b = (case (a, b) of (Num x, Num y) \<Rightarrow> Num (max x y) | _ \<Rightarrow> NaN)"

definition mathMax :: "jsnum \<Rightarrow> jsnum list \<Rightarrow> jsnum" where
  \<comment> \<open>\<open>Math.max\<close> of one or more numbers: NaN as soon as one of them is NaN\<close>
  "mathMax x xs = foldl jsMax2 x xs"

definition rx_amount :: rx where
  \<comment> \<open>\<open>/[\d,]+\.\d{2}/g\<close>\<close>
  "rx_amount = seqs [rep isDigitOrComma 1 None, cls isDot, rep isDigit 2 (Some 2)]"

definition rx_tax :: rx where
  \<comment> \<open>\<open>/tax|vat|gst/\<close>\<close>
  "rx_tax = alts [lit (js ''tax''), lit (js ''vat''), lit (js ''gst'')]"

definition rx_total :: rx where
  "rx_total = lit (js ''total'')"

definition rx_sub :: rx where
  "rx_sub = lit (js ''sub'')"

definition rx_grand_amount :: rx where
  \<comment> \<open>\<open>/grand|amount/\<close>\<close>
  "rx_grand_amount = alts [lit (js ''grand''), lit (js ''amount'')]"

definition parsedAmounts :: "jsstring \<Rightarrow> jsnum list" where
  \<comment> \<open>the money tokens of a line as numbers; empty when \<open>match\<close> gives null\<close>
  "parsedAmounts line = map (\<lambda>a. parseFloat (removeCommas a)) (matchAll rx_amount line)"

definition totalsStep :: "jsnum option \<times> jsnum list \<Rightarrow> jsstring \<Rightarrow> jsnum option \<times> jsnum list" where
  \<comment> \<open>the body of the loop over the bottom lines; the state is (taxAmount, totalsCandidates)\<close>
  "totalsStep st line =
     (let lineLower = toLowerCase line;
          amounts = parsedAmounts line
      in if test rx_tax lineLower then
           (if amounts \<noteq> [] then (Some (last amounts), snd st) else st)
         else if test rx_total lineLower \<and> \<not> test rx_sub lineLower then
           (if amounts \<noteq> [] then (fst st, snd st @ [last amounts]) else st)
         else if test rx_grand_amount lineLower then
           (if amounts \<noteq> [] then (fst st, snd st @ [last amounts]) else st)
         else st)"

definition bottomLines :: "jsstring list \<Rightarrow> jsstring list" where
  \<comment> \<open>\<open>lines.slice(-15)\<close>\<close>
  "bottomLines lines = drop (length lines - 15) lines"

record totals =
  totalAmount :: "jsnum option"
  taxAmount :: "jsnum option"

definition extractTotals :: "jsstring list \<Rightarrow> totals" where
  "extractTotals lines =
     (let st = foldl totalsStep (None, []) (bottomLines lines)
      in \<lparr>totalAmount = (case snd st of [] \<Rightarrow> None | c # cs \<Rightarrow> Some (mathMax c cs)),
          taxAmount = fst st\<rparr>)"

section \<open>Store information (extractStoreInfo)\<close>

definition storeKeywords :: "jsstring list" where
  "storeKeywords = [js ''store'', js ''mart'', js ''shop'', js ''supermarket'', js ''electronics'',
                    js ''retail'', js ''market'']"

definition rx_url :: rx where
  \<comment> \<open>\<open>/www\.|\.com|\.org|\.net|https?:\/\//i\<close>\<close>
  "rx_url = alts [liti (js ''www.''), liti (js ''.com''), liti (js ''.org''), liti (js ''.net''),
                  seqs [liti (js ''http''), opt (chri 115), liti (js ''://'')]]"

definition upperRatio :: "jsstring \<Rightarrow> rat" where
  "upperRatio line =
     roundDouble (of_nat (length (filter isUpperAZ line)) / of_nat (max (length line) 1))"

definition truthy :: "jsstring option \<Rightarrow> bool" where
  \<comment> \<open>a string or null as a condition: null and the empty string are false\<close>
  "truthy v = (case v of None \<Rightarrow> False | Some s \<Rightarrow> s \<noteq> [])"

record storeVars =
  storeName :: "jsstring option"
  addressParts :: "jsstring list"
  website :: "jsstring option"

definition storeStep :: "storeVars \<Rightarrow> jsstring \<Rightarrow> storeVars" where
  \<comment> \<open>the body of the loop over the first ten lines\<close>
  "storeStep st line =
     (if line = [] then st
      else if test rx_url line then st\<lparr>website := Some line\<rparr>
      else
        (let hasKeyword = list_ex (\<lambda>kw. strIncludes (toLowerCase line) kw) storeKeywords
         in if (1 / 2 < upperRatio line \<or> hasKeyword) \<and> \<not> truthy (storeName st) then
              st\<lparr>storeName := Some line\<rparr>
            else if truthy (storeName st) \<and> length (addressParts st) < 3 then
              st\<lparr>addressParts := addressParts st @ [line]\<rparr>
            else st))"

record storeInfo =
  info_store_name :: "jsstring option"
  info_address :: "jsstring option"
  info_website :: "jsstring option"

definition extractStoreInfo :: "jsstring list \<Rightarrow> storeInfo" where
  \<comment> \<open>the fields of the returned object are store_name, address and website\<close>
  "extractStoreInfo lines =
     (let st = foldl storeStep \<lparr>storeName = None, addressParts = [], website = None\<rparr> (take 10 lines)
      in \<lparr>info_store_name = storeName st,
          info_address = (if addressParts st \<noteq> [] then Some (joinWith (js '', '') (addressParts st))
                          else None),
          info_website = website st\<rparr>)"

section \<open>Receipt number (extractReceiptNumber)\<close>

definition isAlnumI :: "jschar \<Rightarrow> bool" where
  \<comment> \<open>the class \<open>[A-Z0-9]\<close> under the i flag\<close>
  "isAlnumI c = (isUpperAZ c \<or> isLowerAZ c \<or> isDigit c)"

definition isAlnumDashI :: "jschar \<Rightarrow> bool" where
  \<comment> \<open>the class \<open>[A-Z0-9\-]\<close> under the i flag\<close>
  "isAlnumDashI c = (isAlnumI c \<or> c = 45)"

definition isIdMark :: "jschar \<Rightarrow> bool" where
  \<comment> \<open>the class \<open>[:#\-]\<close>\<close>
  "isIdMark c = (c = 58 \<or> c = 35 \<or> c = 45)"

definition rx_receipt :: rx where
  \<comment> \<open>\<open>/(?:receipt|invoice|bill|txn|trans|order)\s*(?:no\.?|num(?:ber)?|id)?\s*[:#\-]?\s*([A-Z0-9][A-Z0-9\-]+)/i\<close>\<close>
  "rx_receipt = seqs
     [alts [liti (js ''receipt''), liti (js ''invoice''), liti (js ''bill''), liti (js ''txn''),
            liti (js ''trans''), liti (js ''order'')],
      rep isSpace 0 None,
      opt (alts [seqs [liti (js ''no''), opt (cls isDot)],
                 seqs [liti (js ''num''), opt (liti (js ''ber''))],
                 liti (js ''id'')]),
      rep isSpace 0 None,
      opt (cls isIdMark),
      rep isSpace 0 None,
      grp (seqs [cls isAlnumI, rep isAlnumDashI 1 None])]"

definition extractReceiptNumber :: "jsstring \<Rightarrow> jsstring option" where
  "extractReceiptNumber text =
     (case exec rx_receipt text of None \<Rightarrow> None | Some (i, m, caps) \<Rightarrow> Some (caps ! 0))"

section \<open>Dates (the Date object, parseDate)\<close>

text \<open>
  A Date is its time value: milliseconds since 1970-01-01T00:00:00Z, or None for an invalid
  date. The local time zone is a constant offset from UTC in milliseconds (local time is UTC
  plus the offset); changes of the offset through the year are outside the model.
\<close>

definition msPerDay :: int where
  "msPerDay = 86400000"

definition isLeap :: "int \<Rightarrow> bool" where
  "isLeap y = (y mod 4 = 0 \<and> (y mod 100 \<noteq> 0 \<or> y mod 400 = 0))"

definition dayFromYear :: "int \<Rightarrow> int" where
  \<comment> \<open>the day number of 1 January of year y\<close>
  "dayFromYear y = 365 * (y - 1970) + (y - 1969) div 4 - (y - 1901) div 100 + (y - 1601) div 400"

definition monthStart :: "int \<Rightarrow> bool \<Rightarrow> int" where
  \<comment> \<open>the day within the year of the first day of month m (0 is January)\<close>
  "monthStart m leap =
     (if m = 0 then 0 else if m = 1 then 31
      else (if leap then 1 else 0) +
        (if m = 2 then 59 else if m = 3 then 90 else if m = 4 then 120 else if m = 5 then 151
         else if m = 6 then 181 else if m = 7 then 212 else if m = 8 then 243
         else if m = 9 then 273 else if m = 10 then 304 else 334))"

definition makeDay :: "int \<Rightarrow> int \<Rightarrow> int \<Rightarrow> int" where
  \<comment> \<open>MakeDay(year, month, date): months beyond 0..11 carry into the year, days count on
      from the first of the month\<close>
  "makeDay year month date =
     (let ym = year + month div 12; mn = month mod 12
      in dayFromYear ym + monthStart mn (isLeap ym) + date - 1)"

definition newDate :: "int \<Rightarrow> int option \<Rightarrow> int option \<Rightarrow> int option \<Rightarrow> int option" where
  \<comment> \<open>\<open>new Date(year, month, day)\<close> in the local time zone; an argument None is NaN\<close>
  "newDate tza year month day =
     (case (year, month, day) of
        (Some y, Some m, Some d) \<Rightarrow>
          (let yr = (if 0 \<le> y \<and> y \<le> 99 then 1900 + y else y);
               tv = makeDay yr m d * msPerDay - tza
           in if \<bar>tv\<bar> \<le> 8640000000000000 then Some tv else None)
      | _ \<Rightarrow> None)"

definition yearOfEra :: "int \<Rightarrow> int" where
  \<comment> \<open>the year within a 400-year era (starting on 1 March) of a day of the era\<close>
  "yearOfEra doe = (doe - doe div 1460 + doe div 36524 - doe div 146096) div 365"

definition dayOfYear :: "int \<Rightarrow> int \<Rightarrow> int" where
  \<comment> \<open>the day within that year, counted from 1 March\<close>
  "dayOfYear doe yoe = doe - (365 * yoe + yoe div 4 - yoe div 100)"

definition monthPart :: "int \<Rightarrow> int" where
  \<comment> \<open>the month counted from March (0) of a day of the year counted from 1 March\<close>
  "monthPart doy = (5 * doy + 2) div 153"

definition civilMonth :: "int \<Rightarrow> int" where
  "civilMonth mp = (if mp < 10 then mp + 3 else mp - 9)"

definition civilDay :: "int \<Rightarrow> int \<Rightarrow> int" where
  "civilDay doy mp = doy - (153 * mp + 2) div 5 + 1"

definition civilYear :: "int \<Rightarrow> int \<Rightarrow> int \<Rightarrow> int" where
  "civilYear era yoe m = yoe + era * 400 + (if m \<le> 2 then 1 else 0)"

definition civilFromEra :: "int \<Rightarrow> int \<Rightarrow> int \<times> int \<times> int" where
  "civilFromEra era doe =
     (civilYear era (yearOfEra doe) (civilMonth (monthPart (dayOfYear doe (yearOfEra doe)))),
      civilMonth (monthPart (dayOfYear doe (yearOfEra doe))),
      civilDay (dayOfYear doe (yearOfEra doe)) (monthPart (dayOfYear doe (yearOfEra doe))))"

definition civilFromDays :: "int \<Rightarrow> int \<times> int \<times> int" where
  \<comment> \<open>year, month (1..12) and day of the month of a day number (days since 1970-01-01
      in the proleptic Gregorian calendar); 719468 days lie between 0000-03-01 and 1970-01-01,
      an era of 400 years has 146097 days\<close>
  "civilFromDays n = civilFromEra ((n + 719468) div 146097) ((n + 719468) mod 146097)"

function showNat :: "nat \<Rightarrow> jsstring" where
  "showNat n = (if n < 10 then [48 + n] else showNat (n div 10) @ [48 + n mod 10])"
  by pat_completeness auto
termination
  by (relation "measure id") auto

declare showNat.simps [simp del]

definition padStart :: "nat \<Rightarrow> jsstring \<Rightarrow> jsstring" where
  "padStart w s = replicate (w - length s) 48 @ s"

definition isoDate :: "int \<Rightarrow> jsstring" where
  \<comment> \<open>\<open>toISOString().split('T')[0]\<close> of a valid date: the UTC calendar date, the year with
      four digits, or a sign and six digits outside 0..9999\<close>
  "isoDate tv =
     (case civilFromDays (tv div msPerDay) of
        (y, m, d) \<Rightarrow>
          (if 0 \<le> y \<and> y \<le> 9999 then padStart 4 (showNat (nat y))
           else (if y < 0 then [45] else [43]) @ padStart 6 (showNat (nat \<bar>y\<bar>)))
          @ [45] @ padStart 2 (showNat (nat m)) @ [45] @ padStart 2 (showNat (nat d)))"

datatype jsError = RangeError

definition toISODate :: "int option \<Rightarrow> jsError + jsstring" where
  \<comment> \<open>\<open>date.toISOString().split('T')[0]\<close>: toISOString throws on an invalid date\<close>
  "toISODate date = (case date of None \<Rightarrow> Inl RangeError | Some tv \<Rightarrow> Inr (isoDate tv))"

definition parseInt :: "jsstring \<Rightarrow> int option" where
  \<comment> \<open>on the digit strings the parser hands it; None is NaN\<close>
  "parseInt s = (if takeWhile isDigit s = [] then None
                 else Some (int (digitsVal (takeWhile isDigit s))))"

definition isNaNStr :: "jsstring \<Rightarrow> bool" where
  \<comment> \<open>\<open>isNaN\<close> of a string, on the digit strings and month names the parser hands it\<close>
  "isNaNStr s = (\<not> list_all isDigit s)"

definition isDateSep :: "jschar \<Rightarrow> bool" where
  \<comment> \<open>the class \<open>[/\-]\<close>\<close>
  "isDateSep c = (c = 47 \<or> c = 45)"

definition isLetterI :: "jschar \<Rightarrow> bool" where
  \<comment> \<open>the class \<open>[a-z]\<close> under the i flag\<close>
  "isLetterI c = (isLowerAZ c \<or> isUpperAZ c)"

definition monthNames :: "jsstring list" where
  "monthNames = [js ''Jan'', js ''Feb'', js ''Mar'', js ''Apr'', js ''May'', js ''Jun'',
                 js ''Jul'', js ''Aug'', js ''Sep'', js ''Oct'', js ''Nov'', js ''Dec'']"

definition rx_date1 :: rx where
  \<comment> \<open>\<open>/(\d{1,2})[/\-](\d{1,2})[/\-](\d{2,4})/\<close>\<close>
  "rx_date1 = seqs [grp (rep isDigit 1 (Some 2)), cls isDateSep, grp (rep isDigit 1 (Some 2)),
                    cls isDateSep, grp (rep isDigit 2 (Some 4))]"

definition rx_date2 :: rx where
  \<comment> \<open>\<open>/(\d{4})[/\-](\d{1,2})[/\-](\d{1,2})/\<close>\<close>
  "rx_date2 = seqs [grp (rep isDigit 4 (Some 4)), cls isDateSep, grp (rep isDigit 1 (Some 2)),
                    cls isDateSep, grp (rep isDigit 1 (Some 2))]"

definition rx_date3 :: rx where
  \<comment> \<open>\<open>/(\d{1,2})\s+(Jan|Feb|Mar|Apr|May|Jun|Jul|Aug|Sep|Oct|Nov|Dec)[a-z]*\s+(\d{2,4})/i\<close>\<close>
  "rx_date3 = seqs [grp (rep isDigit 1 (Some 2)), rep isSpace 1 None,
                    grp (alts (map liti monthNames)), rep isLetterI 0 None, rep isSpace 1 None,
                    grp (rep isDigit 2 (Some 4))]"

fun findIndex :: "('a \<Rightarrow> bool) \<Rightarrow> 'a list \<Rightarrow> int" where
  "findIndex P [] = - 1"
| "findIndex P (x # xs) = (if P x then 0 else (let i = findIndex P xs in if i < 0 then - 1 else i + 1))"

definition returnDate :: "int option \<Rightarrow> jsError + jsstring option" where
  \<comment> \<open>\<open>if (!isNaN(date.getTime())) return date.toISOString().split('T')[0]\<close>: Inr None
      is falling out of the if\<close>
  "returnDate date =
     (if date \<noteq> None then (case toISODate date of Inl e \<Rightarrow> Inl e | Inr s \<Rightarrow> Inr (Some s))
      else Inr None)"

definition dateFromMatch :: "int \<Rightarrow> nat \<times> jsstring \<times> jsstring list \<Rightarrow> jsError + jsstring option" where
  \<comment> \<open>the body of the try block, for one match\<close>
  "dateFromMatch tza mt =
     (case mt of (i, m0, caps) \<Rightarrow>
        (let m1 = caps ! 0; m2 = caps ! 1; m3 = caps ! 2
         in if m2 \<noteq> [] \<and> isNaNStr m2 then
              (let month = findIndex (\<lambda>m. toLowerCase (take 3 m2) = toLowerCase m) monthNames;
                   day = parseInt m1;
                   year = parseInt m3;
                   year' = map_option (\<lambda>y. if y < 100 then y + 2000 else y) year
               in returnDate (newDate tza year' (Some month) day))
            else if startsWith m0 (js ''20'') \<or> length m1 = 4 then
              returnDate (newDate tza (parseInt m1) (map_option (\<lambda>m. m - 1) (parseInt m2))
                            (parseInt m3))
            else
              returnDate (newDate tza
                            (map_option (\<lambda>y. y + (if y < 100 then 2000 else 0)) (parseInt m3))
                            (map_option (\<lambda>m. m - 1) (parseInt m1)) (parseInt m2))))"

definition tryPattern :: "int \<Rightarrow> jsstring \<Rightarrow> rx \<Rightarrow> jsstring option" where
  \<comment> \<open>one turn of the loop over the patterns: Some is a return, None goes on to the next
      pattern; the catch block swallows the exception\<close>
  "tryPattern tza text pattern =
     (case exec pattern text of
        None \<Rightarrow> None
      | Some mt \<Rightarrow> (case dateFromMatch tza mt of Inl e \<Rightarrow> None | Inr r \<Rightarrow> r))"

fun firstReturn :: "('a \<Rightarrow> 'b option) \<Rightarrow> 'a list \<Rightarrow> 'b option" where
  "firstReturn f [] = None"
| "firstReturn f (x # xs) = (case f x of Some r \<Rightarrow> Some r | None \<Rightarrow> firstReturn f xs)"

definition parseDate :: "int \<Rightarrow> jsstring \<Rightarrow> jsstring option" where
  "parseDate tza text = firstReturn (tryPattern tza text) [rx_date1, rx_date2, rx_date3]"

section \<open>Payment method and currency\<close>

definition methods :: "jsstring list" where
  "methods = [js ''visa'', js ''mastercard'', js ''amex'', js ''rupay'', js ''upi'', js ''cash'',
              js ''debit'', js ''credit'', js ''card'']"

definition rx_card :: rx where
  \<comment> \<open>\<open>/\*{4,}\d{4}/\<close>\<close>
  "rx_card = seqs [rep (\<lambda>c. c = 42) 4 None, rep isDigit 4 (Some 4)]"

definition extractPaymentMethod :: "jsstring \<Rightarrow> jsstring option" where
  "extractPaymentMethod text =
     (case find (\<lambda>method. strIncludes (toLowerCase text) method) methods of
        None \<Rightarrow> None
      | Some method \<Rightarrow>
          (case exec rx_card text of
             Some (i, m0, caps) \<Rightarrow> Some (toUpperCaseAscii method @ js '' '' @ m0)
           | None \<Rightarrow> Some (toUpperCaseAscii method)))"

definition symbols :: "(jsstring \<times> jsstring) list" where
  \<comment> \<open>dollar, euro (U+20AC), pound (U+00A3), rupee (U+20B9), yen (U+00A5), peso (U+20B1), in
      the order of the object's keys\<close>
  "symbols = [([36], js ''USD''), ([8364], js ''EUR''), ([163], js ''GBP''), ([8377], js ''INR''),
              ([165], js ''JPY''), ([8369], js ''PHP'')]"

definition inferCurrency :: "jsstring \<Rightarrow> jsstring option" where
  "inferCurrency text = map_option snd (find (\<lambda>(symbol, code). strIncludes text symbol) symbols)"

section \<open>The parser (parseReceiptData)\<close>

text \<open>
  The parser reads the clock twice when it falls back to its defaults: \<open>new Date()\<close> for
  the purchase date and \<open>Date.now()\<close> for the receipt number. Both readings and the offset
  of the local time zone are the environment of a call.
\<close>

record env =
  localTZA :: int
  nowDate :: nat
  nowStamp :: nat

record parsedReceipt =
  store_name :: jsstring
  store_address :: "jsstring option"
  store_website :: "jsstring option"
  purchase_date :: jsstring
  total_amount :: jsnum
  tax_amount :: jsnum
  receipt_number :: jsstring
  payment_method :: "jsstring option"
  currency :: jsstring
  items :: "lineItem list"
  raw_text :: jsstring

definition orStr :: "jsstring option \<Rightarrow> jsstring \<Rightarrow> jsstring" where
  \<comment> \<open>\<open>a || d\<close> for a string or null a\<close>
  "orStr a d = (if truthy a then the a else d)"

definition orZero :: "jsnum option \<Rightarrow> jsnum" where
  \<comment> \<open>\<open>a || 0\<close> for a number or null a: null, NaN and 0 are false\<close>
  "orZero a = (case a of None \<Rightarrow> Num 0 | Some NaN \<Rightarrow> Num 0
               | Some (Num x) \<Rightarrow> if x = 0 then Num 0 else Num x)"

definition normalizeLines :: "jsstring \<Rightarrow> jsstring list" where
  \<comment> \<open>\<open>ocrText.split('\n').map(line => line.trim()).filter(line => line.length > 0)\<close>\<close>
  "normalizeLines ocrText = filter (\<lambda>line. 0 < length line) (map trim (splitOn 10 [] ocrText))"

definition parseReceiptData :: "env \<Rightarrow> jsstring \<Rightarrow> parsedReceipt" where
  "parseReceiptData e ocrText =
     (let lines = normalizeLines ocrText;
          storeInfo = extractStoreInfo lines;
          receiptNumber = extractReceiptNumber ocrText;
          purchaseDate = parseDate (localTZA e) ocrText;
          totals = extractTotals lines;
          paymentMethod = extractPaymentMethod ocrText;
          currency = orStr (inferCurrency ocrText) (js ''USD'');
          items = parseItems lines
      in \<lparr>store_name = orStr (info_store_name storeInfo) (js ''Unknown Store''),
          store_address = info_address storeInfo,
          store_website = info_website storeInfo,
          purchase_date = orStr purchaseDate (isoDate (int (nowDate e))),
          total_amount = orZero (totalAmount totals),
          tax_amount = orZero (taxAmount totals),
          receipt_number = orStr receiptNumber (js ''REC-'' @ showNat (nowStamp e)),
          payment_method = paymentMethod,
          currency = currency,
          items = items,
          raw_text = ocrText\<rparr>)"

section \<open>Notions of the specification and invariants of the loops\<close>

text \<open>The predicates the proofs below carry through the loops of parseItems.\<close>

definition qtyInv :: "jsnum \<times> jsnum option \<Rightarrow> bool" where
  "qtyInv st = (snd st = None \<and> (\<exists>q. fst st = Num q \<and> 0 \<le> q))"

definition unitPriceDerived :: "lineItem \<Rightarrow> bool" where
  "unitPriceDerived it =
     (\<exists>p q. total_price it = Num p \<and> 0 \<le> p \<and> quantity it = Num q \<and> 0 \<le> q \<and>
            unit_price it = (if q = 0 then None else Some (Num (roundDouble (p / q)))))"

definition itemsInv :: "lineItem list \<Rightarrow> bool" where
  "itemsInv acc =
     (map serial_no acc = [1..<Suc (length acc)] \<and> (\<forall>it \<in> set acc. unitPriceDerived it))"

text \<open>
  The candidates of extractTotals, said after the specification: a line contains a word when
  its lower-case form has it as a substring; a money token is a match of the amount pattern.
  A tax line is never a totals candidate: the code classifies a line by the first test that
  holds, and the test for the tax words comes first.
\<close>

definition hasTaxWord :: "jsstring \<Rightarrow> bool" where
  "hasTaxWord line =
     (let l = toLowerCase line
      in strIncludes l (js ''tax'') \<or> strIncludes l (js ''vat'') \<or> strIncludes l (js ''gst''))"

definition hasTotalWord :: "jsstring \<Rightarrow> bool" where
  "hasTotalWord line =
     (let l = toLowerCase line
      in (strIncludes l (js ''total'') \<and> \<not> strIncludes l (js ''sub''))
         \<or> strIncludes l (js ''grand'') \<or> strIncludes l (js ''amount''))"

definition taxCandidateLine :: "jsstring \<Rightarrow> bool" where
  "taxCandidateLine line = (hasTaxWord line \<and> parsedAmounts line \<noteq> [])"

definition totalCandidateLine :: "jsstring \<Rightarrow> bool" where
  "totalCandidateLine line = (\<not> hasTaxWord line \<and> hasTotalWord line \<and> parsedAmounts line \<noteq> [])"

definition taxCands :: "jsstring list \<Rightarrow> jsnum list" where
  "taxCands ls = map (\<lambda>l. last (parsedAmounts l)) (filter taxCandidateLine ls)"

definition totalCands :: "jsstring list \<Rightarrow> jsnum list" where
  "totalCands ls = map (\<lambda>l. last (parsedAmounts l)) (filter totalCandidateLine ls)"

text \<open>The totals candidates as claim C2 words them, without the precedence of the tax words.\<close>

definition claimedTotalCands :: "jsstring list \<Rightarrow> jsnum list" where
  "claimedTotalCands ls =
     map (\<lambda>l. last (parsedAmounts l)) (filter (\<lambda>l. hasTotalWord l \<and> parsedAmounts l \<noteq> []) ls)"

text \<open>What the proofs know of a parsed amount, and of a pattern that captures nothing.\<close>

definition nonnegNum :: "jsnum \<Rightarrow> bool" where
  "nonnegNum x = (\<exists>q. x = Num q \<and> 0 \<le> q)"

definition keeps :: "rx \<Rightarrow> bool" where
  \<comment> \<open>the pattern has no group: it leaves the captured groups as they are\<close>
  "keeps p = (\<forall>cs s cs' r. (cs', r) \<in> set (p (cs, s)) \<longrightarrow> cs' = cs)"

text \<open>
  The year that the month/day/year branch of parseDate hands to the Date constructor:
  \<open>parseInt(match[3]) + (parseInt(match[3]) < 100 ? 2000 : 0)\<close>.
\<close>

definition fullYear :: "int \<Rightarrow> int" where
  "fullYear y = y + (if y < 100 then 2000 else 0)"

text \<open>
  The calendar, as the specification speaks of it: the number of days of a month of a year,
  and the ISO form YYYY-MM-DD of a year (of four digits at most), a month and a day. The
  number of leap days up to a year serves the proofs about the Date object.
\<close>

definition daysInMonth :: "int \<Rightarrow> int \<Rightarrow> int" where
  "daysInMonth y m =
     (if m = 2 then (if isLeap y then 29 else 28)
      else if m = 4 \<or> m = 6 \<or> m = 9 \<or> m = 11 then 30 else 31)"

definition isoYMD :: "int \<Rightarrow> int \<Rightarrow> int \<Rightarrow> jsstring" where
  "isoYMD y m d =
     padStart 4 (showNat (nat y)) @ [45] @ padStart 2 (showNat (nat m)) @ [45] @
     padStart 2 (showNat (nat d))"

definition leapsTo :: "int \<Rightarrow> int" where
  "leapsTo k = k div 4 - k div 100 + k div 400"

text \<open>
  Inputs of the scenarios: the three lines of the totals scenario of the specification, two
  lines that are both URLs, a string of white space (a space, a line feed, a tab), a text
  with a receipt number and a numeric date, and the date line of the specification.
\<close>

definition totalsExample :: jsstring where
  "totalsExample = js ''Subtotal 60.00'' @ [10] @ js ''Tax (10%) 6.00'' @ [10] @ js ''Total 66.00''"

definition twoUrls :: jsstring where
  "twoUrls = js ''www.a.com'' @ [10] @ js ''www.b.com''"

definition spaces3 :: jsstring where
  "spaces3 = [32, 10, 9]"

definition receiptAndDate :: jsstring where
  "receiptAndDate = js ''Receipt No: ABC123 01/02/2024''"

definition dateLine :: jsstring where
  "dateLine = js ''Date: 15/01/2024''"

section \<open>Facts about the rounding to a double\<close>

lemma log2Up_small: "x < 2 \<Longrightarrow> log2Up x = 0"
  by (simp add: log2Up.simps)

lemma log2Up_big: "\<not> x < 2 \<Longrightarrow> log2Up x = log2Up (x / 2) + 1"
  by (subst log2Up.simps) simp

lemma log2Down_stop: "x \<le> 0 \<or> 1 \<le> x \<Longrightarrow> log2Down x = 0"
  by (subst log2Down.simps) simp

lemma log2Down_step: "\<not> (x \<le> 0 \<or> 1 \<le> x) \<Longrightarrow> log2Down x = log2Down (2 * x) - 1"
  by (subst log2Down.simps) simp

lemma floor_rat_numeral: "\<lfloor>(numeral a :: rat) / numeral b\<rfloor> = numeral a div numeral b"
  using floor_divide_of_int_eq[of "numeral a" "numeral b", where ?'a = rat] by simp

lemmas round_defs = floor_rat_numeral roundDouble_def ulp_def floorLog2_def pow2_def
  roundHalfEven_def log2Up_small log2Up_big log2Down_stop log2Down_step

lemma roundHalfEven_nonneg: "0 \<le> m \<Longrightarrow> 0 \<le> roundHalfEven m"
  by (simp add: roundHalfEven_def)

lemma pow2_pos: "0 < pow2 e"
  by (simp add: pow2_def)

lemma roundDouble_nonneg: "0 \<le> x \<Longrightarrow> 0 \<le> roundDouble x"
  unfolding roundDouble_def ulp_def
  by (intro mult_nonneg_nonneg) (simp_all add: roundHalfEven_nonneg pow2_pos less_imp_le sgn_if)

lemma roundDouble_examples:
  "roundDouble 0 = 0" "roundDouble 1 = 1" "roundDouble 2 = 2" "roundDouble 6 = 6"
  "roundDouble 50 = 50" "roundDouble 60 = 60" "roundDouble 66 = 66"
  "roundDouble (1 / 10) = 3602879701896397 / 36028797018963968"
  by (simp_all add: round_defs)

section \<open>Facts about the patterns\<close>

lemmas rx_defs = cls_def rep_def seq_def alt_def opt_def eps_def eos_def grp_def chr_def chri_def
  lit_def liti_def

lemmas ch_defs = isDigit_def isSpace_def isComma_def isDot_def isDigitOrComma_def isUpperAZ_def
  isLowerAZ_def asciiLower_def asciiUpper_def

lemma set_seq: "set (seq p q st) = (\<Union>st' \<in> set (p st). set (q st'))"
  by (simp add: seq_def)

lemma repFrom_mem:
  "r \<in> set (repFrom P lo hi s) \<Longrightarrow>
     \<exists>pre. s = pre @ r \<and> list_all P pre \<and> lo \<le> length pre \<and> (\<forall>h. hi = Some h \<longrightarrow> length pre \<le> h)"
proof (induction P lo hi s rule: repFrom.induct)
  case (1 P lo hi)
  then show ?case by (auto split: if_splits)
next
  case (2 P lo hi c s)
  from "2.prems" consider
    (more) "P c" "hi \<noteq> Some 0" "r \<in> set (repFrom P (lo - 1) (map_option (\<lambda>h. h - 1) hi) s)"
    | (stop) "lo = 0" "r = c # s"
    by (auto split: if_splits)
  then show ?case
  proof cases
    case more
    from "2.IH"[OF _ more(3)] more(1,2) obtain pre where
      pre: "s = pre @ r" "list_all P pre" "lo - 1 \<le> length pre"
        "\<forall>h. map_option (\<lambda>h. h - 1) hi = Some h \<longrightarrow> length pre \<le> h"
      by auto
    have "c # s = (c # pre) @ r" using pre by simp
    moreover have "list_all P (c # pre)" using pre more by simp
    moreover have "lo \<le> length (c # pre)" using pre by simp
    moreover have "\<forall>h. hi = Some h \<longrightarrow> length (c # pre) \<le> h"
      using pre(4) more(2) by (cases hi) auto
    ultimately show ?thesis by blast
  next
    case stop
    then show ?thesis by (intro exI[of _ "[]"]) simp
  qed
qed

lemma rep_mem:
  "(cs', r) \<in> set (rep P lo hi (cs, s)) \<Longrightarrow>
     cs' = cs \<and> (\<exists>pre. s = pre @ r \<and> list_all P pre \<and> lo \<le> length pre \<and> (\<forall>h. hi = Some h \<longrightarrow> length pre \<le> h))"
  by (auto simp: rep_def dest: repFrom_mem)

lemma cls_mem: "(cs', r) \<in> set (cls P (cs, s)) \<longleftrightarrow> (\<exists>c. s = c # r \<and> P c \<and> cs' = cs)"
  by (auto simp: cls_def split: list.splits)

lemma eos_mem: "(cs', r) \<in> set (eos (cs, s)) \<longleftrightarrow> (s = [] \<and> r = [] \<and> cs' = cs)"
  by (auto simp: eos_def)

lemma money_needs_digit:
  assumes "testAnchored rx_money s"
  shows "\<exists>c \<in> set s. isDigit c"
proof -
  from assms obtain x where "x \<in> set (rx_money ([], s))"
    by (cases "rx_money ([], s)") (auto simp: testAnchored_def)
  then obtain s1 s2 s3 cs1 cs2 cs3 where
    a: "(cs1, s1) \<in> set (rep isDigitOrComma 1 None ([], s))" and
    b: "(cs2, s2) \<in> set (cls isDot (cs1, s1))" and
    c: "(cs3, s3) \<in> set (rep isDigit 2 (Some 2) (cs2, s2))"
    by (auto simp: rx_money_def set_seq)
  from rep_mem[OF c] obtain pre where pre: "s2 = pre @ s3" "list_all isDigit pre" "2 \<le> length pre"
    by auto
  then obtain d pre' where "pre = d # pre'" by (cases pre) auto
  with pre have "d \<in> set s2" "isDigit d" by auto
  moreover from b have "set s2 \<subseteq> set s1" by (auto simp: cls_mem)
  moreover from rep_mem[OF a] have "set s1 \<subseteq> set s" by auto
  ultimately show ?thesis by blast
qed

lemma repFrom_zero_nonempty: "repFrom P 0 hi s \<noteq> []"
  by (cases s) auto

lemma seq_nonempty: "p st \<noteq> [] \<Longrightarrow> (\<And>st'. q st' \<noteq> []) \<Longrightarrow> seq p q st \<noteq> []"
  by (cases "p st") (auto simp: seq_def)

lemma rep_zero_nonempty: "rep P 0 hi st \<noteq> []"
  by (simp add: rep_def repFrom_zero_nonempty)

lemma opt_nonempty: "opt p st \<noteq> []"
  by (simp add: opt_def)

lemma rx_qty_at_digit: "isDigit c \<Longrightarrow> rx_qty (cs, c # s) \<noteq> []"
  unfolding rx_qty_def seqs.simps
proof (intro seq_nonempty)
  assume d: "isDigit c"
  have "rep isDigit 1 None (cs, c # s) \<noteq> []"
    using d by (simp add: rep_def repFrom_zero_nonempty)
  then have "seq (rep isDigit 1 None) (seq (opt (cls isDot)) (seq (rep isDigit 0 None) eps)) (cs, c # s) \<noteq> []"
    by (intro seq_nonempty) (simp_all add: opt_nonempty rep_zero_nonempty eps_def)
  then show "grp (seq (rep isDigit 1 None) (seq (opt (cls isDot)) (seq (rep isDigit 0 None) eps))) (cs, c # s) \<noteq> []"
    by (simp add: grp_def)
qed (simp_all add: opt_nonempty eps_def)

lemma execFrom_qty_digit: "\<exists>c \<in> set s. isDigit c \<Longrightarrow> execFrom rx_qty i s \<noteq> None"
proof (induction s arbitrary: i)
  case Nil
  then show ?case by simp
next
  case (Cons c s)
  show ?case
  proof (cases "rx_qty ([], c # s)")
    case Nil
    with rx_qty_at_digit[of c "[]" s] have "\<not> isDigit c" by auto
    with Cons.prems have "\<exists>c \<in> set s. isDigit c" by auto
    from Cons.IH[OF this] Nil show ?thesis by simp
  next
    case (Cons a list)
    then show ?thesis by (simp split: prod.splits)
  qed
qed

lemma money_not_reached: "exec rx_qty part = None \<Longrightarrow> \<not> testAnchored rx_money part"
  using execFrom_qty_digit[of part 0] money_needs_digit[of part] by (auto simp: exec_def)

lemma opt_cls_mem: "(cs', r) \<in> set (opt (cls P) (cs, s)) \<Longrightarrow> cs' = cs \<and> (\<exists>pre. s = pre @ r)"
  by (auto simp: opt_def cls_mem)

lemma rx_qty_group:
  assumes "(cs', r) \<in> set (rx_qty ([], s))"
  shows "\<exists>c t. isDigit c \<and> cs' = [c # t]"
proof -
  from assms obtain cs1 r1 where
    g: "(cs1, r1) \<in> set (grp (seqs [rep isDigit 1 None, opt (cls isDot), rep isDigit 0 None]) ([], s))" and
    o: "(cs', r) \<in> set (seq (opt (chri 120)) eps (cs1, r1))"
    by (auto simp: rx_qty_def set_seq)
  from o have cs': "cs' = cs1"
    by (auto simp: set_seq eps_def chri_def dest: opt_cls_mem)
  from g obtain cs0 where
    i: "(cs0, r1) \<in> set (seqs [rep isDigit 1 None, opt (cls isDot), rep isDigit 0 None] ([], s))" and
    cs1: "cs1 = cs0 @ [take (length s - length r1) s]"
    by (auto simp: grp_def)
  from i obtain ca ra cb rb where
    a: "(ca, ra) \<in> set (rep isDigit 1 None ([], s))" and
    b: "(cb, rb) \<in> set (opt (cls isDot) (ca, ra))" and
    c: "(cs0, r1) \<in> set (rep isDigit 0 None (cb, rb))"
    by (auto simp: set_seq eps_def)
  from rep_mem[OF a] obtain pre where pre: "ca = []" "s = pre @ ra" "list_all isDigit pre" "1 \<le> length pre"
    by auto
  from opt_cls_mem[OF b] obtain p2 where p2: "cb = ca" "ra = p2 @ rb" by auto
  from rep_mem[OF c] obtain p3 where p3: "cs0 = cb" "rb = p3 @ r1" by auto
  obtain d pre' where d: "pre = d # pre'" using pre(4) by (cases pre) auto
  have s: "s = d # (pre' @ p2 @ p3 @ r1)" using pre p2 p3 d by simp
  have "take (length s - length r1) s = d # take (length pre' + length p2 + length p3) (pre' @ p2 @ p3 @ r1)"
    by (simp add: s)
  moreover have "isDigit d" using pre(3) d by simp
  ultimately show ?thesis using cs' cs1 p3 p2 pre(1) by auto
qed

lemma execFrom_mem:
  "execFrom p i s = Some (j, m, caps) \<Longrightarrow> \<exists>s' r. (caps, r) \<in> set (p ([], s'))"
proof (induction s arbitrary: i)
  case Nil
  then obtain r rest where "p ([], []) = (caps, r) # rest"
    by (cases "p ([], [])") (auto split: prod.splits)
  then have "(caps, r) \<in> set (p ([], []))" by simp
  then show ?case by blast
next
  case (Cons c s)
  show ?case
  proof (cases "p ([], c # s)")
    case Nil
    with Cons.prems have "execFrom p (Suc i) s = Some (j, m, caps)" by simp
    then show ?thesis by (rule Cons.IH)
  next
    case (Cons a rest)
    with Cons.prems obtain r where "a = (caps, r)" by (cases a) auto
    with Cons have "(caps, r) \<in> set (p ([], c # s))" by simp
    then show ?thesis by blast
  qed
qed

lemma exec_qty_group: "exec rx_qty part = Some (i, m, caps) \<Longrightarrow> \<exists>c t. isDigit c \<and> caps = [c # t]"
  unfolding exec_def using execFrom_mem rx_qty_group by blast

lemma parseFloat_digit: "isDigit c \<Longrightarrow> \<exists>q. parseFloat (c # t) = Num q \<and> 0 \<le> q"
  by (simp add: parseFloat_def Let_def roundDouble_nonneg)

lemma partStep_snd: "snd (partStep totalPrice st part) = snd st"
  by (auto simp: partStep_def money_not_reached split: option.splits)

lemma partStep_inv: "qtyInv st \<Longrightarrow> qtyInv (partStep totalPrice st part)"
proof (cases "exec rx_qty part")
  case None
  assume "qtyInv st"
  with None show ?thesis by (simp add: partStep_def money_not_reached)
next
  case (Some a)
  assume inv: "qtyInv st"
  obtain i m caps where a: "a = (i, m, caps)" by (cases a) auto
  from exec_qty_group[of part i m caps] Some a obtain c t where "isDigit c" "caps = [c # t]" by auto
  with parseFloat_digit[of c t] obtain q where "parseFloat (caps ! 0) = Num q" "0 \<le> q" by auto
  with Some a inv show ?thesis by (simp add: partStep_def qtyInv_def)
qed

lemma foldl_partStep_inv: "qtyInv st \<Longrightarrow> qtyInv (foldl (partStep totalPrice) st parts)"
  by (induction parts arbitrary: st) (auto simp: partStep_inv)

lemma parseFloat_nonneg: "parseFloat s = Num q \<Longrightarrow> 0 \<le> q"
  by (auto simp: parseFloat_def Let_def roundDouble_nonneg split: if_splits)

lemma parseFloat_money:
  assumes "list_all isDigitOrComma a" "list_all isDigit d" "length d = 2"
  shows "\<exists>q. parseFloat (removeCommas (a @ [46] @ d)) = Num q \<and> 0 \<le> q"
proof -
  define a' where "a' = filter (\<lambda>c. \<not> isComma c) a"
  have a': "\<forall>x \<in> set a'. isDigit x"
    using assms(1) by (auto simp: a'_def list_all_iff isDigitOrComma_def)
  have dnc: "filter (\<lambda>c. \<not> isComma c) d = d"
    using assms(2) by (auto simp: filter_id_conv list_all_iff isDigit_def isComma_def)
  have rc: "removeCommas (a @ [46] @ d) = a' @ 46 # d"
  proof -
    have "\<not> isComma 46" by (simp add: isComma_def)
    then show ?thesis by (simp add: removeCommas_def a'_def dnc)
  qed
  have nd: "\<not> isDigit 46" by (simp add: isDigit_def)
  have tw: "takeWhile isDigit (a' @ 46 # d) = a'"
    using a' nd by (simp add: takeWhile_append2)
  have dw: "dropWhile isDigit (a' @ 46 # d) = 46 # d"
    using a' nd by (simp add: dropWhile_append2)
  have td: "takeWhile isDigit d = d"
    using assms(2) by (simp add: list_all_iff)
  have "d \<noteq> []" using assms(3) by auto
  then have "\<exists>q. parseFloat (a' @ 46 # d) = Num q"
    by (simp add: parseFloat_def Let_def tw dw td isDot_def)
  then show ?thesis using parseFloat_nonneg rc by auto
qed

lemma rx_price_group:
  assumes "(cs', r) \<in> set (rx_price ([], s))"
  shows "\<exists>a d. cs' = [a @ [46] @ d] \<and> list_all isDigitOrComma a \<and> list_all isDigit d \<and> length d = 2"
proof -
  from assms obtain cs1 r1 where
    g: "(cs1, r1) \<in> set (grp (seqs [rep isDigitOrComma 1 None, cls isDot, rep isDigit 2 (Some 2)]) ([], s))" and
    t: "(cs', r) \<in> set (seqs [rep isSpace 0 None, eos] (cs1, r1))"
    by (auto simp: rx_price_def set_seq)
  from t obtain c2 r2 where
    t1: "(c2, r2) \<in> set (rep isSpace 0 None (cs1, r1))" and
    t2: "(cs', r) \<in> set (eos (c2, r2))"
    by (auto simp: set_seq eps_def)
  from rep_mem[OF t1] t2 have cs': "cs' = cs1" by (simp add: eos_mem)
  from g obtain cs0 where
    i: "(cs0, r1) \<in> set (seqs [rep isDigitOrComma 1 None, cls isDot, rep isDigit 2 (Some 2)] ([], s))" and
    cs1: "cs1 = cs0 @ [take (length s - length r1) s]"
    by (auto simp: grp_def)
  from i obtain ca ra cb rb where
    a: "(ca, ra) \<in> set (rep isDigitOrComma 1 None ([], s))" and
    b: "(cb, rb) \<in> set (cls isDot (ca, ra))" and
    c: "(cs0, r1) \<in> set (rep isDigit 2 (Some 2) (cb, rb))"
    by (auto simp: set_seq eps_def)
  from rep_mem[OF a] obtain pa where pa: "ca = []" "s = pa @ ra" "list_all isDigitOrComma pa" by auto
  from b have ra: "ra = 46 # rb" "cb = ca" by (auto simp: cls_mem isDot_def)
  from rep_mem[OF c] obtain d where
    d: "cs0 = cb" "rb = d @ r1" "list_all isDigit d" "2 \<le> length d" "length d \<le> 2"
    by auto
  have "take (length s - length r1) s = pa @ [46] @ d" using pa(2) ra(1) d(2) by simp
  then show ?thesis using cs' cs1 d pa ra by (intro exI[of _ pa] exI[of _ d]) simp
qed

lemma exec_price_num:
  assumes "exec rx_price line = Some (i, m, caps)"
  shows "\<exists>p. parseFloat (removeCommas (caps ! 0)) = Num p \<and> 0 \<le> p"
proof -
  from execFrom_mem[OF assms[unfolded exec_def]] obtain s' r where
    "(caps, r) \<in> set (rx_price ([], s'))" by blast
  from rx_price_group[OF this] obtain a d where
    "caps = [a @ [46] @ d]" "list_all isDigitOrComma a" "list_all isDigit d" "length d = 2" by blast
  then show ?thesis using parseFloat_money[of a d] by simp
qed

lemma itemStep_cases:
  "itemStep acc line = acc \<or>
   (\<exists>it. itemStep acc line = acc @ [it] \<and> serial_no it = length acc + 1 \<and> unitPriceDerived it)"
proof (cases "exec rx_price line")
  case None
  then show ?thesis by (simp add: itemStep_def)
next
  case (Some a)
  obtain i m caps where a: "a = (i, m, caps)" by (cases a) auto
  define totalPrice where "totalPrice = parseFloat (removeCommas (caps ! 0))"
  define parts0 where "parts0 = split rx_spaces2 line"
  define parts where "parts = (if length parts0 < 2 then split rx_spaces line else parts0)"
  define st where "st = foldl (partStep totalPrice) (Num 1, None) (drop 1 parts)"
  have "qtyInv (Num 1, None)" by (simp add: qtyInv_def)
  then have "qtyInv st" unfolding st_def by (rule foldl_partStep_inv)
  then obtain q where q: "snd st = None" "fst st = Num q" "0 \<le> q" by (auto simp: qtyInv_def)
  from exec_price_num[of line i m caps] Some a obtain p where p: "totalPrice = Num p" "0 \<le> p"
    unfolding totalPrice_def by auto
  have "itemStep acc line = acc @ [\<lparr>description = (case parts of [] \<Rightarrow> [] | p # _ \<Rightarrow> p),
      quantity = fst st,
      unit_price = (if snd st = None \<and> jsGt (fst st) (Num 0) then Some (jsDiv totalPrice (fst st)) else snd st),
      total_price = totalPrice, serial_no = length acc + 1\<rparr>]"
    using Some a by (simp add: itemStep_def Let_def totalPrice_def parts0_def parts_def st_def)
  moreover have "unitPriceDerived \<lparr>description = (case parts of [] \<Rightarrow> [] | p # _ \<Rightarrow> p),
      quantity = fst st,
      unit_price = (if snd st = None \<and> jsGt (fst st) (Num 0) then Some (jsDiv totalPrice (fst st)) else snd st),
      total_price = totalPrice, serial_no = length acc + 1\<rparr>"
    using q p by (auto simp: unitPriceDerived_def jsGt_def jsDiv_def)
  ultimately show ?thesis by auto
qed

lemma itemStep_inv:
  assumes "itemsInv acc"
  shows "itemsInv (itemStep acc line)"
proof -
  from itemStep_cases[of acc line] show ?thesis
  proof
    assume "itemStep acc line = acc"
    with assms show ?thesis by simp
  next
    assume "\<exists>it. itemStep acc line = acc @ [it] \<and> serial_no it = length acc + 1 \<and> unitPriceDerived it"
    then obtain it where it: "itemStep acc line = acc @ [it]" "serial_no it = length acc + 1"
        "unitPriceDerived it"
      by auto
    have "map serial_no (acc @ [it]) = [1..<Suc (length (acc @ [it]))]"
      using assms it(2) by (simp add: itemsInv_def)
    moreover have "\<forall>x \<in> set (acc @ [it]). unitPriceDerived x"
      using assms it(3) by (auto simp: itemsInv_def)
    ultimately show ?thesis unfolding it(1) itemsInv_def by blast
  qed
qed

lemma foldl_itemStep_inv: "itemsInv acc \<Longrightarrow> itemsInv (foldl itemStep acc ls)"
  by (induction ls arbitrary: acc) (simp_all add: itemStep_inv)

lemma parseItems_inv: "itemsInv (parseItems lines)"
  unfolding parseItems_def by (rule foldl_itemStep_inv) (simp add: itemsInv_def)

section \<open>Facts about extractTotals\<close>

lemma lit_Cons: "lit (k # ks) (cs, s) = (case s of [] \<Rightarrow> [] | c # r \<Rightarrow> if c = k then lit ks (cs, r) else [])"
  by (simp add: lit_def seq_def chr_def cls_def split: list.splits)

lemma lit_Nil: "lit [] st = [st]"
  by (simp add: lit_def eps_def)

lemma lit_startsWith: "(lit kw (cs, s) \<noteq> []) = startsWith s kw"
proof (induction kw arbitrary: s)
  case Nil
  then show ?case by (simp add: lit_Nil)
next
  case (Cons k ks)
  then show ?case by (cases s) (simp_all add: lit_Cons)
qed

lemma execFrom_None_iff:
  "(execFrom p i s = None) = (\<forall>k \<le> length s. p ([], drop k s) = [])"
proof (induction s arbitrary: i)
  case Nil
  then show ?case by (cases "p ([], [])") (auto split: prod.splits)
next
  case (Cons c s)
  show ?case
  proof (cases "p ([], c # s)")
    case Nil
    have "(\<forall>k \<le> length (c # s). p ([], drop k (c # s)) = []) = (\<forall>k \<le> length s. p ([], drop k s) = [])"
    proof
      assume a: "\<forall>k \<le> length (c # s). p ([], drop k (c # s)) = []"
      show "\<forall>k \<le> length s. p ([], drop k s) = []"
      proof (intro allI impI)
        fix k assume "k \<le> length s"
        with a have "p ([], drop (Suc k) (c # s)) = []" by (metis Suc_le_mono length_Cons)
        then show "p ([], drop k s) = []" by simp
      qed
    next
      assume a: "\<forall>k \<le> length s. p ([], drop k s) = []"
      show "\<forall>k \<le> length (c # s). p ([], drop k (c # s)) = []"
      proof (intro allI impI)
        fix k assume k: "k \<le> length (c # s)"
        show "p ([], drop k (c # s)) = []"
        proof (cases k)
          case 0
          then show ?thesis using Nil by simp
        next
          case (Suc j)
          with k a show ?thesis by simp
        qed
      qed
    qed
    with Nil Cons.IH[of "Suc i"] show ?thesis by simp
  next
    case ne: (Cons a rest)
    then have "execFrom p i (c # s) \<noteq> None" by (simp split: prod.splits)
    moreover have "p ([], drop 0 (c # s)) \<noteq> []" using ne by simp
    then have "\<not> (\<forall>k \<le> length (c # s). p ([], drop k (c # s)) = [])" by blast
    ultimately show ?thesis by blast
  qed
qed

lemma strIncludes_iff: "strIncludes s kw = (\<exists>k \<le> length s. startsWith (drop k s) kw)"
proof (induction s)
  case Nil
  then show ?case by (cases kw) auto
next
  case (Cons c s)
  have "(\<exists>k \<le> length (c # s). startsWith (drop k (c # s)) kw) =
        (startsWith (c # s) kw \<or> (\<exists>k \<le> length s. startsWith (drop k s) kw))"
  proof
    assume "\<exists>k \<le> length (c # s). startsWith (drop k (c # s)) kw"
    then obtain k where k: "k \<le> length (c # s)" "startsWith (drop k (c # s)) kw" by auto
    show "startsWith (c # s) kw \<or> (\<exists>k \<le> length s. startsWith (drop k s) kw)"
    proof (cases k)
      case 0
      with k show ?thesis by simp
    next
      case (Suc j)
      with k have "j \<le> length s" "startsWith (drop j s) kw" by auto
      then show ?thesis by blast
    qed
  next
    assume "startsWith (c # s) kw \<or> (\<exists>k \<le> length s. startsWith (drop k s) kw)"
    then show "\<exists>k \<le> length (c # s). startsWith (drop k (c # s)) kw"
    proof
      assume "startsWith (c # s) kw"
      then show ?thesis by (intro exI[of _ 0]) simp
    next
      assume "\<exists>k \<le> length s. startsWith (drop k s) kw"
      then obtain k where "k \<le> length s" "startsWith (drop k s) kw" by auto
      then show ?thesis by (intro exI[of _ "Suc k"]) simp
    qed
  qed
  with Cons show ?case by simp
qed

lemma lit_empty_iff: "(lit kw (cs, s) = []) = (\<not> startsWith s kw)"
  using lit_startsWith[of kw cs s] by blast

lemma test_lit: "test (lit kw) s = strIncludes s kw"
  by (simp add: test_def exec_def execFrom_None_iff strIncludes_iff lit_empty_iff)

lemma test_alt: "test (alt p q) s = (test p s \<or> test q s)"
  by (auto simp: test_def exec_def execFrom_None_iff alt_def)

lemma test_none: "test (\<lambda>st. []) s = False"
  by (simp add: test_def exec_def execFrom_None_iff)

lemma test_rx_tax: "test rx_tax (toLowerCase line) = hasTaxWord line"
  by (simp add: rx_tax_def test_alt test_lit test_none hasTaxWord_def Let_def)

lemma test_rx_total_words:
  "(test rx_total (toLowerCase line) \<and> \<not> test rx_sub (toLowerCase line) \<or>
    test rx_grand_amount (toLowerCase line)) = hasTotalWord line"
  by (simp add: rx_total_def rx_sub_def rx_grand_amount_def test_alt test_lit test_none hasTotalWord_def Let_def)

lemma totalsStep_eq:
  "totalsStep st line =
     (if taxCandidateLine line then (Some (last (parsedAmounts line)), snd st)
      else if totalCandidateLine line then (fst st, snd st @ [last (parsedAmounts line)])
      else st)"
  using test_rx_total_words[of line]
  by (auto simp: totalsStep_def Let_def test_rx_tax taxCandidateLine_def totalCandidateLine_def)

lemma totalsStep_tax: "taxCandidateLine l \<Longrightarrow> totalsStep st l = (Some (last (parsedAmounts l)), snd st)"
  by (simp add: totalsStep_eq)

lemma totalsStep_total:
  "totalCandidateLine l \<Longrightarrow> totalsStep st l = (fst st, snd st @ [last (parsedAmounts l)])"
  by (simp add: totalsStep_eq taxCandidateLine_def totalCandidateLine_def)

lemma totalsStep_other: "\<not> taxCandidateLine l \<Longrightarrow> \<not> totalCandidateLine l \<Longrightarrow> totalsStep st l = st"
  by (simp add: totalsStep_eq)

lemma foldl_totalsStep:
  "foldl totalsStep st ls =
     (if taxCands ls = [] then fst st else Some (last (taxCands ls)), snd st @ totalCands ls)"
proof (induction ls arbitrary: st)
  case Nil
  then show ?case by (simp add: taxCands_def totalCands_def)
next
  case (Cons l ls)
  consider (tax) "taxCandidateLine l" | (total) "totalCandidateLine l"
    | (other) "\<not> taxCandidateLine l" "\<not> totalCandidateLine l"
    by blast
  then show ?case
  proof cases
    case tax
    then have nt: "\<not> totalCandidateLine l" by (simp add: taxCandidateLine_def totalCandidateLine_def)
    have "foldl totalsStep st (l # ls) = foldl totalsStep (Some (last (parsedAmounts l)), snd st) ls"
      by (simp add: totalsStep_tax[OF tax])
    also have "\<dots> = (if taxCands ls = [] then Some (last (parsedAmounts l)) else Some (last (taxCands ls)),
                      snd st @ totalCands ls)"
      by (simp add: Cons.IH)
    also have "\<dots> = (if taxCands (l # ls) = [] then fst st else Some (last (taxCands (l # ls))),
                      snd st @ totalCands (l # ls))"
      using tax nt by (simp add: taxCands_def totalCands_def)
    finally show ?thesis .
  next
    case total
    then have nt: "\<not> taxCandidateLine l" by (simp add: taxCandidateLine_def totalCandidateLine_def)
    have "foldl totalsStep st (l # ls) = foldl totalsStep (fst st, snd st @ [last (parsedAmounts l)]) ls"
      by (simp add: totalsStep_total[OF total])
    also have "\<dots> = (if taxCands ls = [] then fst st else Some (last (taxCands ls)),
                      (snd st @ [last (parsedAmounts l)]) @ totalCands ls)"
      by (simp add: Cons.IH)
    also have "\<dots> = (if taxCands (l # ls) = [] then fst st else Some (last (taxCands (l # ls))),
                      snd st @ totalCands (l # ls))"
      using total nt by (simp add: taxCands_def totalCands_def)
    finally show ?thesis .
  next
    case other
    have "foldl totalsStep st (l # ls) = foldl totalsStep st ls"
      by (simp add: totalsStep_other[OF other])
    also have "\<dots> = (if taxCands ls = [] then fst st else Some (last (taxCands ls)), snd st @ totalCands ls)"
      by (rule Cons.IH)
    also have "\<dots> = (if taxCands (l # ls) = [] then fst st else Some (last (taxCands (l # ls))),
                      snd st @ totalCands (l # ls))"
      using other by (simp add: taxCands_def totalCands_def)
    finally show ?thesis .
  qed
qed

lemma matchAllFrom_mem:
  "m \<in> set (matchAllFrom p k s) \<Longrightarrow>
     \<exists>s' cs r rest. p ([], s') = (cs, r) # rest \<and> m = take (length s' - length r) s'"
proof (induction s arbitrary: k)
  case Nil
  then have "m = []" "p ([], []) \<noteq> []" by (auto split: if_splits)
  then obtain cs r rest where "p ([], []) = (cs, r) # rest" by (cases "p ([], [])") auto
  with \<open>m = []\<close> have "p ([], []) = (cs, r) # rest \<and> m = take (length ([]::jsstring) - length r) []"
    by simp
  then show ?case by blast
next
  case (Cons c s)
  show ?case
  proof (cases "0 < k")
    case True
    with Cons.prems have "m \<in> set (matchAllFrom p (k - 1) s)" by simp
    then show ?thesis by (rule Cons.IH)
  next
    case False
    show ?thesis
    proof (cases "p ([], c # s)")
      case Nil
      with False Cons.prems have "m \<in> set (matchAllFrom p 0 s)" by simp
      then show ?thesis by (rule Cons.IH)
    next
      case ne: (Cons a rest)
      obtain cs r where a: "a = (cs, r)" by (cases a) auto
      define m0 where "m0 = take (length (c # s) - length r) (c # s)"
      from False Cons.prems ne a have "m = m0 \<or> m \<in> set (matchAllFrom p (length m0 - 1) s)"
        by (auto simp: Let_def m0_def)
      then show ?thesis
      proof
        assume "m = m0"
        with ne a show ?thesis unfolding m0_def by blast
      next
        assume "m \<in> set (matchAllFrom p (length m0 - 1) s)"
        then show ?thesis by (rule Cons.IH)
      qed
    qed
  qed
qed

lemma rx_amount_mem:
  assumes "(cs, r) \<in> set (rx_amount ([], s))"
  shows "\<exists>a d. s = a @ [46] @ d @ r \<and> list_all isDigitOrComma a \<and> list_all isDigit d \<and> length d = 2"
proof -
  from assms obtain c1 s1 c2 s2 where
    a: "(c1, s1) \<in> set (rep isDigitOrComma 1 None ([], s))" and
    b: "(c2, s2) \<in> set (cls isDot (c1, s1))" and
    c: "(cs, r) \<in> set (rep isDigit 2 (Some 2) (c2, s2))"
    by (auto simp: rx_amount_def set_seq eps_def)
  from rep_mem[OF a] obtain pa where pa: "s = pa @ s1" "list_all isDigitOrComma pa" by auto
  from b have s1: "s1 = 46 # s2" by (auto simp: cls_mem isDot_def)
  from rep_mem[OF c] obtain d where d: "s2 = d @ r" "list_all isDigit d" "2 \<le> length d" "length d \<le> 2"
    by auto
  show ?thesis using pa s1 d by (intro exI[of _ pa] exI[of _ d]) simp
qed

lemma amount_token_num:
  assumes "m \<in> set (matchAll rx_amount line)"
  shows "\<exists>q. parseFloat (removeCommas m) = Num q \<and> 0 \<le> q"
proof -
  from matchAllFrom_mem[OF assms[unfolded matchAll_def]] obtain s' cs r rest where
    h: "rx_amount ([], s') = (cs, r) # rest" "m = take (length s' - length r) s'"
    by auto
  then have "(cs, r) \<in> set (rx_amount ([], s'))" by simp
  from rx_amount_mem[OF this] obtain a d where
    ad: "s' = a @ [46] @ d @ r" "list_all isDigitOrComma a" "list_all isDigit d" "length d = 2"
    by auto
  have "m = a @ [46] @ d" using h(2) ad(1) by simp
  with parseFloat_money[OF ad(2,3,4)] show ?thesis by simp
qed

lemma parsedAmounts_nonneg: "x \<in> set (parsedAmounts line) \<Longrightarrow> nonnegNum x"
  using amount_token_num by (auto simp: parsedAmounts_def nonnegNum_def)

lemma taxCands_nonneg: "x \<in> set (taxCands ls) \<Longrightarrow> nonnegNum x"
  using parsedAmounts_nonneg last_in_set by (fastforce simp: taxCands_def taxCandidateLine_def)

lemma totalCands_nonneg: "x \<in> set (totalCands ls) \<Longrightarrow> nonnegNum x"
  using parsedAmounts_nonneg last_in_set by (fastforce simp: totalCands_def totalCandidateLine_def)

lemma nonneg_list: "(\<forall>x \<in> set xs. nonnegNum x) \<Longrightarrow> \<exists>qs. xs = map Num qs \<and> (\<forall>q \<in> set qs. 0 \<le> q)"
proof (induction xs)
  case Nil
  then show ?case by simp
next
  case (Cons x xs)
  then obtain qs q where "xs = map Num qs" "\<forall>q \<in> set qs. 0 \<le> q" "x = Num q" "0 \<le> q"
    by (auto simp: nonnegNum_def)
  then show ?case by (intro exI[of _ "q # qs"]) simp
qed

lemma foldl_jsMax2: "foldl jsMax2 (Num q) (map Num qs) = Num (fold max qs q)"
  by (induction qs arbitrary: q) (simp_all add: jsMax2_def max.commute)

lemma mathMax_Num: "mathMax (Num q) (map Num qs) = Num (Max (set (q # qs)))"
proof -
  have "Max (set (q # qs)) = fold max qs q" by (rule Max.set_eq_fold)
  then show ?thesis by (simp only: mathMax_def foldl_jsMax2)
qed

lemma total_amount_eq:
  "total_amount (parseReceiptData e text) =
     orZero (case totalCands (bottomLines (normalizeLines text)) of [] \<Rightarrow> None
             | c # cs \<Rightarrow> Some (mathMax c cs))"
  by (simp add: parseReceiptData_def Let_def extractTotals_def foldl_totalsStep)

lemma tax_amount_eq:
  "tax_amount (parseReceiptData e text) =
     orZero (if taxCands (bottomLines (normalizeLines text)) = [] then None
             else Some (last (taxCands (bottomLines (normalizeLines text)))))"
  by (simp add: parseReceiptData_def Let_def extractTotals_def foldl_totalsStep)

lemma orZero_Num: "orZero (Some (Num q)) = Num q"
  by (simp add: orZero_def)

lemma totals_char:
  "\<exists>qs ts. totalCands (bottomLines (normalizeLines text)) = map Num qs \<and>
           taxCands (bottomLines (normalizeLines text)) = map Num ts \<and>
           (\<forall>q \<in> set qs. 0 \<le> q) \<and> (\<forall>q \<in> set ts. 0 \<le> q) \<and>
           total_amount (parseReceiptData e text) = Num (if qs = [] then 0 else Max (set qs)) \<and>
           tax_amount (parseReceiptData e text) = Num (if ts = [] then 0 else last ts)"
proof -
  obtain qs where qs: "totalCands (bottomLines (normalizeLines text)) = map Num qs" "\<forall>q \<in> set qs. 0 \<le> q"
    using nonneg_list[of "totalCands (bottomLines (normalizeLines text))"] totalCands_nonneg by blast
  obtain ts where ts: "taxCands (bottomLines (normalizeLines text)) = map Num ts" "\<forall>q \<in> set ts. 0 \<le> q"
    using nonneg_list[of "taxCands (bottomLines (normalizeLines text))"] taxCands_nonneg by blast
  have "total_amount (parseReceiptData e text) = Num (if qs = [] then 0 else Max (set qs))"
  proof (cases qs)
    case Nil
    then show ?thesis by (simp add: total_amount_eq qs(1) orZero_def)
  next
    case (Cons q qs')
    then show ?thesis by (simp add: total_amount_eq qs(1) mathMax_Num orZero_Num)
  qed
  moreover have "tax_amount (parseReceiptData e text) = Num (if ts = [] then 0 else last ts)"
  proof (cases "ts = []")
    case True
    then show ?thesis by (simp add: tax_amount_eq ts(1) orZero_def)
  next
    case False
    then show ?thesis by (simp add: tax_amount_eq ts(1) orZero_Num last_map)
  qed
  ultimately show ?thesis using qs ts by blast
qed

lemmas str_defs = toLowerCase_def lowerUnit_def js_def

lemma normalizeLines_totalsExample:
  "normalizeLines totalsExample = [js ''Subtotal 60.00'', js ''Tax (10%) 6.00'', js ''Total 66.00'']"
  by (simp add: totalsExample_def normalizeLines_def trim_def js_def ch_defs)

lemma parsedAmounts_examples:
  "parsedAmounts (js ''Subtotal 60.00'') = [Num 60]"
  "parsedAmounts (js ''Tax (10%) 6.00'') = [Num 6]"
  "parsedAmounts (js ''Total 66.00'') = [Num 66]"
  "parsedAmounts (js ''Total incl. tax 66.00'') = [Num 66]"
  "parsedAmounts (js ''Thank you'') = []"
  by (simp_all add: parsedAmounts_def matchAll_def rx_amount_def rx_defs ch_defs js_def
      parseFloat_def removeCommas_def digitsVal_def digitVal_def roundDouble_examples)

lemma words_examples:
  "\<not> hasTaxWord (js ''Subtotal 60.00'')" "hasTaxWord (js ''Tax (10%) 6.00'')"
  "\<not> hasTaxWord (js ''Total 66.00'')" "hasTaxWord (js ''Total incl. tax 66.00'')"
  "\<not> hasTotalWord (js ''Subtotal 60.00'')" "hasTotalWord (js ''Total 66.00'')"
  "hasTotalWord (js ''Total incl. tax 66.00'')"
  "\<not> hasTaxWord (js ''Thank you'')" "\<not> hasTotalWord (js ''Thank you'')"
  by (simp_all add: hasTaxWord_def hasTotalWord_def str_defs ch_defs)

lemma cands_totalsExample:
  "totalCands (bottomLines (normalizeLines totalsExample)) = [Num 66]"
  "taxCands (bottomLines (normalizeLines totalsExample)) = [Num 6]"
  by (simp_all add: normalizeLines_totalsExample bottomLines_def totalCands_def taxCands_def
      totalCandidateLine_def taxCandidateLine_def parsedAmounts_examples words_examples)

lemma totals_of_example:
  "tax_amount (parseReceiptData e totalsExample) = Num 6 \<and>
   total_amount (parseReceiptData e totalsExample) = Num 66"
  by (simp add: total_amount_eq tax_amount_eq cands_totalsExample mathMax_def orZero_def)

lemma normalizeLines_total_tax:
  "normalizeLines (js ''Total incl. tax 66.00'') = [js ''Total incl. tax 66.00'']"
  by (simp add: normalizeLines_def trim_def js_def ch_defs)

lemma normalizeLines_thank_you: "normalizeLines (js ''Thank you'') = [js ''Thank you'']"
  by (simp add: normalizeLines_def trim_def js_def ch_defs)

section \<open>Facts about extractStoreInfo\<close>

lemma normalizeLines_nonempty: "l \<in> set (normalizeLines ocrText) \<Longrightarrow> l \<noteq> []"
  by (auto simp: normalizeLines_def)

lemma storeStep_website:
  "l \<noteq> [] \<Longrightarrow> website (storeStep st l) = (if test rx_url l then Some l else website st)"
  by (simp add: storeStep_def Let_def)

lemma foldl_storeStep_website:
  "\<forall>l \<in> set ls. l \<noteq> [] \<Longrightarrow>
     website (foldl storeStep st ls) =
       (if filter (test rx_url) ls = [] then website st else Some (last (filter (test rx_url) ls)))"
proof (induction ls arbitrary: st)
  case Nil
  then show ?case by simp
next
  case (Cons l ls)
  then have l: "l \<noteq> []" and ls: "\<forall>l \<in> set ls. l \<noteq> []" by auto
  show ?case
  proof (cases "test rx_url l")
    case True
    then show ?thesis using Cons.IH[OF ls, of "storeStep st l"] storeStep_website[OF l, of st]
      by simp
  next
    case False
    then show ?thesis using Cons.IH[OF ls, of "storeStep st l"] storeStep_website[OF l, of st]
      by simp
  qed
qed

lemma store_website_char:
  "store_website (parseReceiptData e ocrText) =
     (if filter (test rx_url) (take 10 (normalizeLines ocrText)) = [] then None
      else Some (last (filter (test rx_url) (take 10 (normalizeLines ocrText)))))"
proof -
  have "\<forall>l \<in> set (take 10 (normalizeLines ocrText)). l \<noteq> []"
    using normalizeLines_nonempty by (meson in_set_takeD)
  from foldl_storeStep_website[OF this] show ?thesis
    by (simp add: parseReceiptData_def Let_def extractStoreInfo_def)
qed

lemma normalizeLines_twoUrls: "normalizeLines twoUrls = [js ''www.a.com'', js ''www.b.com'']"
  by (simp add: twoUrls_def normalizeLines_def trim_def js_def ch_defs)

lemma test_url_a: "test rx_url (js ''www.a.com'')"
  by (simp add: test_def exec_def rx_url_def js_def rx_defs ch_defs)

lemma test_url_b: "test rx_url (js ''www.b.com'')"
  by (simp add: test_def exec_def rx_url_def js_def rx_defs ch_defs)

lemma store_website_twoUrls: "store_website (parseReceiptData e twoUrls) = Some (js ''www.b.com'')"
  by (simp add: store_website_char normalizeLines_twoUrls test_url_a test_url_b)

section \<open>Facts about groups, and the dependence on the clock\<close>

lemma keeps_cls: "keeps (cls P)"
  by (auto simp: keeps_def cls_mem)

lemma keeps_rep: "keeps (rep P lo hi)"
  by (auto simp: keeps_def dest: rep_mem)

lemma keeps_eps: "keeps eps"
  by (simp add: keeps_def eps_def)

lemma keeps_seq:
  assumes "keeps p" "keeps q"
  shows "keeps (seq p q)"
  unfolding keeps_def
proof (intro allI impI)
  fix cs s cs' r
  assume "(cs', r) \<in> set (seq p q (cs, s))"
  then obtain c1 s1 where "(c1, s1) \<in> set (p (cs, s))" "(cs', r) \<in> set (q (c1, s1))"
    by (auto simp: set_seq)
  with assms show "cs' = cs" unfolding keeps_def by blast
qed

lemma keeps_alt:
  assumes "keeps p" "keeps q"
  shows "keeps (alt p q)"
  unfolding keeps_def
proof (intro allI impI)
  fix cs s cs' r
  assume "(cs', r) \<in> set (alt p q (cs, s))"
  then have "(cs', r) \<in> set (p (cs, s)) \<or> (cs', r) \<in> set (q (cs, s))"
    by (simp add: alt_def)
  with assms show "cs' = cs" unfolding keeps_def by blast
qed

lemma keeps_opt:
  assumes "keeps p"
  shows "keeps (opt p)"
  unfolding keeps_def
proof (intro allI impI)
  fix cs s cs' r
  assume "(cs', r) \<in> set (opt p (cs, s))"
  then have "(cs', r) \<in> set (p (cs, s)) \<or> cs' = cs"
    by (auto simp: opt_def)
  with assms show "cs' = cs" unfolding keeps_def by blast
qed

lemma keeps_none: "keeps (\<lambda>st. [])"
  by (simp add: keeps_def)

lemma keeps_seqs: "(\<forall>p \<in> set ps. keeps p) \<Longrightarrow> keeps (seqs ps)"
  by (induction ps) (simp_all add: keeps_eps keeps_seq)

lemma keeps_alts: "(\<forall>p \<in> set ps. keeps p) \<Longrightarrow> keeps (alts ps)"
  by (induction ps) (simp_all add: keeps_alt keeps_none)

lemma keeps_liti: "keeps (liti s)"
  unfolding liti_def by (rule keeps_seqs) (auto simp: chri_def keeps_cls)

lemma seq_fun: "seq q r = (\<lambda>st. concat (map r (q st)))"
  by (rule ext) (simp add: seq_def)

lemma eps_fun: "eps = (\<lambda>st. [st])"
  by (rule ext) (simp add: eps_def)

lemma seq_assoc: "seq (seq p q) r = seq p (seq q r)"
proof (rule ext)
  fix st
  have "concat (map r (concat (map q xs))) = concat (map (\<lambda>x. concat (map r (q x))) xs)" for xs
    by (induction xs) simp_all
  then show "seq (seq p q) r st = seq p (seq q r) st" by (simp add: seq_fun)
qed

lemma seq_eps: "seq p eps = p"
  by (rule ext) (simp add: seq_fun eps_fun)

lemma eps_seq: "seq eps q = q"
  by (rule ext) (simp add: seq_def eps_def)

lemma seqs_append: "seqs (ps @ qs) = seq (seqs ps) (seqs qs)"
  by (induction ps) (simp_all add: eps_seq seq_assoc)

lemma rx_receipt_group:
  assumes "(cs', r) \<in> set (rx_receipt ([], s))"
  shows "\<exists>g. cs' = [g] \<and> g \<noteq> []"
proof -
  define pre where "pre = seqs
     [alts [liti (js ''receipt''), liti (js ''invoice''), liti (js ''bill''), liti (js ''txn''),
            liti (js ''trans''), liti (js ''order'')],
      rep isSpace 0 None,
      opt (alts [seqs [liti (js ''no''), opt (cls isDot)],
                 seqs [liti (js ''num''), opt (liti (js ''ber''))],
                 liti (js ''id'')]),
      rep isSpace 0 None,
      opt (cls isIdMark),
      rep isSpace 0 None]"
  have kp: "keeps pre"
    unfolding pre_def
    by (simp add: keeps_seq keeps_alt keeps_opt keeps_liti keeps_rep keeps_cls keeps_eps keeps_none)
  have split: "rx_receipt = seq pre (seq (grp (seqs [cls isAlnumI, rep isAlnumDashI 1 None])) eps)"
    by (simp add: rx_receipt_def pre_def seq_assoc seq_eps eps_seq)
  from assms obtain c1 s1 where
    a: "(c1, s1) \<in> set (pre ([], s))" and
    b: "(cs', r) \<in> set (grp (seqs [cls isAlnumI, rep isAlnumDashI 1 None]) (c1, s1))"
    unfolding split by (auto simp: set_seq eps_def)
  from kp a have c1: "c1 = []" unfolding keeps_def by blast
  from b obtain c2 where
    i: "(c2, r) \<in> set (seqs [cls isAlnumI, rep isAlnumDashI 1 None] (c1, s1))" and
    cs': "cs' = c2 @ [take (length s1 - length r) s1]"
    by (auto simp: grp_def)
  from i obtain ca ra where
    x: "(ca, ra) \<in> set (cls isAlnumI (c1, s1))" and
    y: "(c2, r) \<in> set (rep isAlnumDashI 1 None (ca, ra))"
    by (auto simp: set_seq eps_def)
  from x obtain c where c: "s1 = c # ra" "ca = c1" by (auto simp: cls_mem)
  from rep_mem[OF y] obtain p where p: "c2 = ca" "ra = p @ r" by auto
  have "take (length s1 - length r) s1 = c # p" using c p by simp
  with cs' p c c1 show ?thesis by simp
qed

lemma extractReceiptNumber_truthy: "extractReceiptNumber ocrText \<noteq> None \<Longrightarrow> truthy (extractReceiptNumber ocrText)"
proof -
  assume "extractReceiptNumber ocrText \<noteq> None"
  then obtain i m caps where e: "exec rx_receipt ocrText = Some (i, m, caps)"
    by (auto simp: extractReceiptNumber_def split: option.splits)
  from execFrom_mem[OF e[unfolded exec_def]] rx_receipt_group obtain g where "caps = [g]" "g \<noteq> []"
    by blast
  with e show ?thesis by (simp add: extractReceiptNumber_def truthy_def)
qed

lemma showNat_nonempty: "showNat n \<noteq> []"
  by (subst showNat.simps) simp

lemma isoDate_nonempty: "isoDate tv \<noteq> []"
  by (simp add: isoDate_def split: prod.splits)

lemma returnDate_cases: "returnDate date = Inr (map_option isoDate date)"
  by (cases date) (simp_all add: returnDate_def toISODate_def)

lemma dateFromMatch_no_throw: "\<exists>r. dateFromMatch tza mt = Inr r"
  by (cases mt) (simp add: dateFromMatch_def Let_def returnDate_cases)

lemma dateFromMatch_nonempty: "dateFromMatch tza mt = Inr (Some d) \<Longrightarrow> d \<noteq> []"
  by (cases mt) (auto simp: dateFromMatch_def Let_def returnDate_cases isoDate_nonempty split: if_splits)

lemma tryPattern_nonempty: "tryPattern tza ocrText p = Some d \<Longrightarrow> d \<noteq> []"
  by (auto simp: tryPattern_def dateFromMatch_nonempty split: option.splits sum.splits)

lemma firstReturn_mem: "firstReturn f xs = Some r \<Longrightarrow> \<exists>x \<in> set xs. f x = Some r"
  by (induction xs) (auto split: option.splits)

lemma parseDate_truthy: "parseDate tza ocrText \<noteq> None \<Longrightarrow> truthy (parseDate tza ocrText)"
  unfolding parseDate_def truthy_def
  using firstReturn_mem tryPattern_nonempty by (fastforce split: option.splits)

lemma orStr_truthy: "truthy a \<Longrightarrow> orStr a d = the a"
  by (simp add: orStr_def)

section \<open>Facts about input that is all white space\<close>

lemma splitOn_space:
  "list_all isSpace piece \<Longrightarrow> list_all isSpace s \<Longrightarrow> x \<in> set (splitOn d piece s) \<Longrightarrow> list_all isSpace x"
proof (induction s arbitrary: piece)
  case Nil
  then show ?case by simp
next
  case (Cons c s)
  have s: "list_all isSpace s" and c: "isSpace c" using Cons.prems(2) by simp_all
  show ?case
  proof (cases "c = d")
    case True
    with Cons.prems(3) have "x = piece \<or> x \<in> set (splitOn d [] s)" by simp
    then show ?thesis using Cons.prems(1) Cons.IH[of "[]", OF _ s] by auto
  next
    case False
    with Cons.prems(3) have "x \<in> set (splitOn d (piece @ [c]) s)" by simp
    moreover have "list_all isSpace (piece @ [c])" using Cons.prems(1) c by simp
    ultimately show ?thesis using Cons.IH[of "piece @ [c]", OF _ s] by blast
  qed
qed

lemma trim_space:
  assumes "list_all isSpace s"
  shows "trim s = []"
proof -
  have d: "dropWhile isSpace s = []" using assms by (simp add: list_all_iff)
  show ?thesis unfolding trim_def d by simp
qed

lemma normalizeLines_space: "list_all isSpace ocrText \<Longrightarrow> normalizeLines ocrText = []"
  using splitOn_space[of "[]" ocrText _ 10]
  by (auto simp: normalizeLines_def filter_empty_conv trim_space)

lemma space_not_letter: "isSpace c \<Longrightarrow> \<not> isLowerAZ (asciiLower c)"
  by (auto simp: isSpace_def isLowerAZ_def asciiLower_def isUpperAZ_def)

lemma space_not_digit: "isSpace c \<Longrightarrow> \<not> isDigit c"
  by (auto simp: isSpace_def isDigit_def)

lemma space_lowerUnit: "isSpace c \<Longrightarrow> lowerUnit c = [c]"
  by (auto simp: isSpace_def lowerUnit_def isUpperAZ_def)

lemma toLowerCase_space: "list_all isSpace s \<Longrightarrow> toLowerCase s = s"
  by (induction s) (simp_all add: toLowerCase_def space_lowerUnit)

lemma startsWith_hd: "startsWith s (k # ks) \<Longrightarrow> k \<in> set s"
  by (cases s) auto

lemma strIncludes_hd: "strIncludes s (k # ks) \<Longrightarrow> k \<in> set s"
  by (induction s) (auto dest: startsWith_hd)

lemma liti_first:
  "s = [] \<or> asciiLower (hd s) \<noteq> asciiLower k \<Longrightarrow> liti (k # ks) (cs, s) = []"
  by (cases s) (auto simp: liti_def seq_def chri_def cls_def)

lemma liti_space:
  assumes "list_all isSpace s" "isLowerAZ (asciiLower k)"
  shows "liti (k # ks) (cs, s) = []"
proof (cases s)
  case Nil
  then show ?thesis by (simp add: liti_first)
next
  case (Cons a rest)
  with assms(1) have "\<not> isLowerAZ (asciiLower a)" by (simp add: space_not_letter)
  with assms(2) have "asciiLower a \<noteq> asciiLower k" by auto
  with Cons show ?thesis by (simp add: liti_first)
qed

lemma rx_receipt_space: "list_all isSpace s \<Longrightarrow> rx_receipt (cs, s) = []"
  by (simp add: rx_receipt_def seq_def alt_def js_def liti_space isLowerAZ_def asciiLower_def isUpperAZ_def)

lemma rep_first: "0 < lo \<Longrightarrow> s = [] \<or> \<not> P (hd s) \<Longrightarrow> rep P lo hi (cs, s) = []"
  by (cases s) (auto simp: rep_def)

lemma rep_space:
  assumes "0 < lo" "list_all isSpace s" "\<And>c. isSpace c \<Longrightarrow> \<not> P c"
  shows "rep P lo hi (cs, s) = []"
proof (cases s)
  case Nil
  with assms(1) show ?thesis by (simp add: rep_first)
next
  case (Cons a rest)
  with assms(2,3) have "\<not> P (hd s)" by simp
  with assms(1) show ?thesis by (simp add: rep_first)
qed

lemma rep_digit_space: "0 < lo \<Longrightarrow> list_all isSpace s \<Longrightarrow> rep isDigit lo hi (cs, s) = []"
  by (rule rep_space) (simp_all add: space_not_digit)

lemma rx_date_space:
  assumes "list_all isSpace s"
  shows "rx_date1 (cs, s) = []" "rx_date2 (cs, s) = []" "rx_date3 (cs, s) = []"
  using assms by (simp_all add: rx_date1_def rx_date2_def rx_date3_def seq_def grp_def rep_digit_space)

lemma rx_card_space:
  assumes "list_all isSpace s"
  shows "rx_card (cs, s) = []"
proof -
  have "rep (\<lambda>c. c = 42) 4 None (cs, s) = []"
    using assms by (intro rep_space) (auto simp: isSpace_def)
  then show ?thesis by (simp add: rx_card_def seq_def)
qed

lemma exec_space:
  assumes "\<And>s. list_all isSpace s \<Longrightarrow> p ([], s) = []" "list_all isSpace ocrText"
  shows "exec p ocrText = None"
  unfolding exec_def execFrom_None_iff
proof (intro allI impI)
  fix k
  have "list_all isSpace (drop k ocrText)"
    using assms(2) by (auto simp: list_all_iff dest: in_set_dropD)
  then show "p ([], drop k ocrText) = []" by (rule assms(1))
qed

lemma extractReceiptNumber_space: "list_all isSpace ocrText \<Longrightarrow> extractReceiptNumber ocrText = None"
  by (simp add: extractReceiptNumber_def exec_space[of rx_receipt] rx_receipt_space)

lemma parseDate_space: "list_all isSpace ocrText \<Longrightarrow> parseDate tza ocrText = None"
  by (simp add: parseDate_def tryPattern_def exec_space[of rx_date1] exec_space[of rx_date2]
      exec_space[of rx_date3] rx_date_space)

lemma extractPaymentMethod_space:
  assumes "list_all isSpace ocrText"
  shows "extractPaymentMethod ocrText = None"
proof -
  have "\<not> strIncludes ocrText mth" if "mth \<in> set methods" for mth
  proof
    assume inc: "strIncludes ocrText mth"
    have "\<forall>m \<in> set methods. \<exists>k ks. m = k # ks \<and> \<not> isSpace k"
      by (simp add: methods_def js_def isSpace_def)
    with that obtain k ks where m: "mth = k # ks" "\<not> isSpace k"
      by blast
    with inc have "k \<in> set ocrText" by (auto dest: strIncludes_hd)
    with assms m(2) show False by (auto simp: list_all_iff)
  qed
  then have "find (\<lambda>method. strIncludes (toLowerCase ocrText) method) methods = None"
    by (simp add: toLowerCase_space[OF assms] find_None_iff)
  then show ?thesis by (simp add: extractPaymentMethod_def)
qed

lemma inferCurrency_space:
  assumes "list_all isSpace ocrText"
  shows "inferCurrency ocrText = None"
proof -
  have "\<not> strIncludes ocrText (fst sc)" if "sc \<in> set symbols" for sc
  proof
    assume inc: "strIncludes ocrText (fst sc)"
    have "\<forall>sc \<in> set symbols. \<exists>k. fst sc = [k] \<and> \<not> isSpace k"
      by (simp add: symbols_def isSpace_def)
    with that obtain k where m: "fst sc = [k]" "\<not> isSpace k"
      by blast
    with inc have "k \<in> set ocrText" by (auto dest: strIncludes_hd)
    with assms m(2) show False by (auto simp: list_all_iff)
  qed
  then have "find (\<lambda>(symbol, code). strIncludes ocrText symbol) symbols = None"
    by (auto simp: find_None_iff)
  then show ?thesis by (simp add: inferCurrency_def)
qed

lemma extractors_empty:
  "extractStoreInfo [] = \<lparr>info_store_name = None, info_address = None, info_website = None\<rparr>"
  "extractTotals [] = \<lparr>totalAmount = None, taxAmount = None\<rparr>"
  "parseItems [] = []"
  by (simp_all add: extractStoreInfo_def extractTotals_def bottomLines_def parseItems_def itemsEnd_def)

lemma parse_whitespace:
  assumes "list_all isSpace ocrText"
  shows "parseReceiptData e ocrText =
     \<lparr>store_name = js ''Unknown Store'', store_address = None, store_website = None,
      purchase_date = isoDate (int (nowDate e)), total_amount = Num 0, tax_amount = Num 0,
      receipt_number = js ''REC-'' @ showNat (nowStamp e), payment_method = None,
      currency = js ''USD'', items = [], raw_text = ocrText\<rparr>"
  by (simp add: parseReceiptData_def Let_def normalizeLines_space[OF assms]
      extractReceiptNumber_space[OF assms] parseDate_space[OF assms]
      extractPaymentMethod_space[OF assms] inferCurrency_space[OF assms] extractors_empty
      orStr_def truthy_def orZero_def)

section \<open>Evaluations of dates and of the defaults\<close>

lemmas civil_defs = civilFromDays_def civilFromEra_def civilYear_def civilDay_def civilMonth_def
  monthPart_def dayOfYear_def yearOfEra_def

lemmas date_defs = isoDate_def civil_defs msPerDay_def padStart_def makeDay_def
  dayFromYear_def monthStart_def isLeap_def newDate_def

lemma showNat_small: "n < 10 \<Longrightarrow> showNat n = [48 + n]"
  by (subst showNat.simps) simp

lemma showNat_big: "\<not> n < 10 \<Longrightarrow> showNat n = showNat (n div 10) @ [48 + n mod 10]"
  by (subst showNat.simps) simp

lemmas showNat_eval = showNat_small showNat_big

lemma isoDate_examples:
  "isoDate 0 = js ''1970-01-01''"
  "isoDate 86400000 = js ''1970-01-02''"
  by (simp_all add: date_defs Let_def showNat_eval js_def)

lemma showNat_examples: "showNat 0 = js ''0''" "showNat 1 = js ''1''" "showNat 7 = js ''7''"
  by (simp_all add: showNat_eval js_def)

lemma spaces3_space: "list_all isSpace spaces3" "list_all isSpace []"
  by (simp_all add: spaces3_def isSpace_def)

lemma parse_spaces3:
  "parseReceiptData \<lparr>localTZA = 0, nowDate = 0, nowStamp = 0\<rparr> spaces3 =
     \<lparr>store_name = js ''Unknown Store'', store_address = None, store_website = None,
      purchase_date = js ''1970-01-01'', total_amount = Num 0, tax_amount = Num 0,
      receipt_number = js ''REC-0'', payment_method = None,
      currency = js ''USD'', items = [], raw_text = spaces3\<rparr>"
  by (simp add: parse_whitespace[OF spaces3_space(1)] isoDate_examples showNat_examples js_def)

lemma receiptAndDate_number: "extractReceiptNumber receiptAndDate = Some (js ''ABC123'')"
  by (simp add: receiptAndDate_def extractReceiptNumber_def exec_def rx_receipt_def js_def rx_defs
      ch_defs isAlnumI_def isAlnumDashI_def isIdMark_def)

lemma exec_date1_receiptAndDate:
  "exec rx_date1 receiptAndDate = Some (19, js ''01/02/2024'', [js ''01'', js ''02'', js ''2024''])"
  by (simp add: receiptAndDate_def exec_def rx_date1_def js_def rx_defs ch_defs isDateSep_def)

lemma parseInt_examples:
  "parseInt (js ''01'') = Some 1" "parseInt (js ''02'') = Some 2" "parseInt (js ''2024'') = Some 2024"
  "parseInt (js ''15'') = Some 15" "parseInt (js ''20'') = Some 20"
  by (simp_all add: parseInt_def js_def isDigit_def digitsVal_def digitVal_def)

lemma dateFromMatch_numeric:
  assumes "list_all isDigit m2"
  shows "dateFromMatch tza (i, m0, [m1, m2, m3]) =
     (if startsWith m0 (js ''20'') \<or> length m1 = 4 then
        returnDate (newDate tza (parseInt m1) (map_option (\<lambda>m. m - 1) (parseInt m2)) (parseInt m3))
      else
        returnDate (newDate tza (map_option (\<lambda>y. y + (if y < 100 then 2000 else 0)) (parseInt m3))
                      (map_option (\<lambda>m. m - 1) (parseInt m1)) (parseInt m2)))"
  using assms by (simp add: dateFromMatch_def Let_def isNaNStr_def)

lemma newDate_20240102: "newDate 0 (Some 2024) (Some 0) (Some 2) = Some (19724 * msPerDay)"
  by (simp add: newDate_def makeDay_def dayFromYear_def monthStart_def isLeap_def msPerDay_def)

lemma isoDate_20240102: "isoDate (19724 * msPerDay) = js ''2024-01-02''"
  by (simp add: isoDate_def msPerDay_def civil_defs padStart_def showNat_eval js_def)

lemma dateFromMatch_01_02_2024:
  "dateFromMatch 0 (19, js ''01/02/2024'', [js ''01'', js ''02'', js ''2024'']) = Inr (Some (js ''2024-01-02''))"
proof -
  have d: "list_all isDigit (js ''02'')" by (simp add: js_def isDigit_def)
  have s: "\<not> startsWith (js ''01/02/2024'') (js ''20'')" by (simp add: js_def)
  have l: "length (js ''01'') \<noteq> 4" by (simp add: js_def)
  show ?thesis
    by (simp add: dateFromMatch_numeric[OF d] s l parseInt_examples newDate_20240102
        returnDate_cases isoDate_20240102)
qed

lemma receiptAndDate_date: "parseDate 0 receiptAndDate = Some (js ''2024-01-02'')"
  by (simp add: parseDate_def tryPattern_def exec_date1_receiptAndDate dateFromMatch_01_02_2024)

section \<open>Facts about the first date pattern\<close>

lemma grp_rep_mem:
  assumes "(cs', r) \<in> set (grp (rep P lo hi) (cs, s))"
  shows "\<exists>pre. s = pre @ r \<and> cs' = cs @ [pre] \<and> list_all P pre \<and> lo \<le> length pre \<and>
               (\<forall>h. hi = Some h \<longrightarrow> length pre \<le> h)"
proof -
  from assms obtain cs0 where
    m: "(cs0, r) \<in> set (rep P lo hi (cs, s))" and
    c: "cs' = cs0 @ [take (length s - length r) s]"
    by (auto simp: grp_def)
  from rep_mem[OF m] obtain pre where pre: "cs0 = cs" "s = pre @ r" "list_all P pre" "lo \<le> length pre"
    "\<forall>h. hi = Some h \<longrightarrow> length pre \<le> h"
    by auto
  have "take (length s - length r) s = pre" using pre(2) by simp
  with c pre show ?thesis by auto
qed

lemma rx_date1_mem:
  assumes "(caps, r) \<in> set (rx_date1 ([], s))"
  shows "\<exists>a x b y c. s = a @ x # b @ y # c @ r \<and> caps = [a, b, c] \<and>
           list_all isDigit a \<and> 1 \<le> length a \<and> length a \<le> 2 \<and> isDateSep x \<and>
           list_all isDigit b \<and> 1 \<le> length b \<and> length b \<le> 2 \<and> isDateSep y \<and>
           list_all isDigit c \<and> 2 \<le> length c \<and> length c \<le> 4"
proof -
  from assms obtain c1 s1 c2 s2 c3 s3 c4 s4 where
    g1: "(c1, s1) \<in> set (grp (rep isDigit 1 (Some 2)) ([], s))" and
    x1: "(c2, s2) \<in> set (cls isDateSep (c1, s1))" and
    g2: "(c3, s3) \<in> set (grp (rep isDigit 1 (Some 2)) (c2, s2))" and
    x2: "(c4, s4) \<in> set (cls isDateSep (c3, s3))" and
    g3: "(caps, r) \<in> set (grp (rep isDigit 2 (Some 4)) (c4, s4))"
    by (auto simp: rx_date1_def set_seq eps_def)
  from grp_rep_mem[OF g1] obtain a where a: "s = a @ s1" "c1 = [a]" "list_all isDigit a"
    "1 \<le> length a" "length a \<le> 2" by auto
  from x1 obtain x where x: "s1 = x # s2" "isDateSep x" "c2 = c1" by (auto simp: cls_mem)
  from grp_rep_mem[OF g2] obtain b where b: "s2 = b @ s3" "c3 = c2 @ [b]" "list_all isDigit b"
    "1 \<le> length b" "length b \<le> 2" by auto
  from x2 obtain y where y: "s3 = y # s4" "isDateSep y" "c4 = c3" by (auto simp: cls_mem)
  from grp_rep_mem[OF g3] obtain c where c: "s4 = c @ r" "caps = c4 @ [c]" "list_all isDigit c"
    "2 \<le> length c" "length c \<le> 4" by auto
  have "s = a @ x # b @ y # c @ r" using a x b y c by simp
  moreover have "caps = [a, b, c]" using a x b y c by simp
  ultimately show ?thesis using a x b y c by blast
qed

lemma execFrom_Some:
  "execFrom p j s = Some (i, m0, caps) \<Longrightarrow>
     j \<le> i \<and> i - j \<le> length s \<and>
     (\<exists>r rest. p ([], drop (i - j) s) = (caps, r) # rest \<and>
                m0 = take (length (drop (i - j) s) - length r) (drop (i - j) s))"
proof (induction s arbitrary: j)
  case Nil
  then obtain r rest where "p ([], []) = (caps, r) # rest" "i = j" "m0 = []"
    by (cases "p ([], [])") (auto split: prod.splits)
  then show ?case by simp
next
  case (Cons c s)
  show ?case
  proof (cases "p ([], c # s)")
    case Nil
    with Cons.prems have e: "execFrom p (Suc j) s = Some (i, m0, caps)" by simp
    from Cons.IH[OF e] obtain r rest where h: "Suc j \<le> i" "i - Suc j \<le> length s"
      "p ([], drop (i - Suc j) s) = (caps, r) # rest"
      "m0 = take (length (drop (i - Suc j) s) - length r) (drop (i - Suc j) s)"
      by blast
    have "i - j = Suc (i - Suc j)" using h(1) by arith
    then have d: "drop (i - j) (c # s) = drop (i - Suc j) s" by simp
    show ?thesis using h d by auto
  next
    case ne: (Cons a rest)
    obtain cs r where a: "a = (cs, r)" by (cases a) auto
    with ne Cons.prems have "i = j" "caps = cs" "m0 = take (length (c # s) - length r) (c # s)"
      by auto
    with ne a show ?thesis by simp
  qed
qed

lemma exec_date1_Some:
  assumes "exec rx_date1 ocrText = Some (i, m0, caps)"
  shows "\<exists>a x b y c. m0 = a @ x # b @ y # c \<and> caps = [a, b, c] \<and>
           list_all isDigit a \<and> 1 \<le> length a \<and> length a \<le> 2 \<and> isDateSep x \<and>
           list_all isDigit b \<and> 1 \<le> length b \<and> length b \<le> 2 \<and> isDateSep y \<and>
           list_all isDigit c \<and> 2 \<le> length c \<and> length c \<le> 4"
proof -
  from execFrom_Some[OF assms[unfolded exec_def]] obtain r rest where
    h: "rx_date1 ([], drop i ocrText) = (caps, r) # rest"
       "m0 = take (length (drop i ocrText) - length r) (drop i ocrText)"
    by auto
  then have "(caps, r) \<in> set (rx_date1 ([], drop i ocrText))" by simp
  from rx_date1_mem[OF this] obtain a x b y c where
    m: "drop i ocrText = a @ x # b @ y # c @ r" "caps = [a, b, c]"
       "list_all isDigit a" "1 \<le> length a" "length a \<le> 2" "isDateSep x"
       "list_all isDigit b" "1 \<le> length b" "length b \<le> 2" "isDateSep y"
       "list_all isDigit c" "2 \<le> length c" "length c \<le> 4"
    by blast
  have "m0 = a @ x # b @ y # c" unfolding h(2) m(1) by simp
  with m show ?thesis by blast
qed

lemma digitsVal_snoc: "digitsVal (ds @ [d]) = 10 * digitsVal ds + digitVal d"
  by (simp add: digitsVal_def)

lemma digitsVal_bound: "list_all isDigit ds \<Longrightarrow> digitsVal ds < 10 ^ length ds"
proof (induction ds rule: rev_induct)
  case Nil
  then show ?case by (simp add: digitsVal_def)
next
  case (snoc d ds)
  then have "digitsVal ds < 10 ^ length ds" "digitVal d \<le> 9"
    by (auto simp: isDigit_def digitVal_def)
  then show ?case by (simp add: digitsVal_snoc)
qed

lemma parseInt_digits:
  assumes "list_all isDigit ds" "ds \<noteq> []"
  shows "parseInt ds = Some (int (digitsVal ds))"
proof -
  have tw: "takeWhile isDigit ds = ds" using assms(1) by (simp add: list_all_iff)
  show ?thesis unfolding parseInt_def tw using assms(2) by simp
qed

section \<open>Facts about the Date object and the reading of a numeric date\<close>

lemma monthStart_bound: "0 \<le> monthStart m leap \<and> monthStart m leap \<le> 335"
  by (simp add: monthStart_def)

lemma dayFromYear_bound:
  assumes "- 1 \<le> y" "y \<le> 13000"
  shows "- 1000000 \<le> dayFromYear y \<and> dayFromYear y \<le> 5000000"
proof -
  have a: "(- 1970) div 4 \<le> (y - 1969) div 4" "(y - 1969) div 4 \<le> 11031 div (4::int)"
    using assms by (intro zdiv_mono1; simp)+
  have b: "(- 1902) div 100 \<le> (y - 1901) div 100" "(y - 1901) div 100 \<le> 11099 div (100::int)"
    using assms by (intro zdiv_mono1; simp)+
  have c: "(- 1602) div 400 \<le> (y - 1601) div 400" "(y - 1601) div 400 \<le> 11399 div (400::int)"
    using assms by (intro zdiv_mono1; simp)+
  show ?thesis using a b c assms unfolding dayFromYear_def by simp
qed

lemma makeDay_bound:
  assumes "0 \<le> y" "y \<le> 12000" "- 1 \<le> m" "m \<le> 98" "0 \<le> d" "d \<le> 9999"
  shows "- 2000000 \<le> makeDay y m d \<and> makeDay y m d \<le> 6000000"
proof -
  have "(- 1) div 12 \<le> m div 12" "m div 12 \<le> 98 div (12::int)"
    using assms(3,4) by (intro zdiv_mono1; simp)+
  then have "- 1 \<le> m div 12" "m div 12 \<le> 8" by simp_all
  then have "- 1 \<le> y + m div 12" "y + m div 12 \<le> 13000" using assms(1,2) by simp_all
  from dayFromYear_bound[OF this] monthStart_bound[of "m mod 12" "isLeap (y + m div 12)"] assms(5,6)
  show ?thesis by (simp add: makeDay_def Let_def)
qed

lemma newDate_valid:
  assumes "0 \<le> y" "y \<le> 10000" "- 1 \<le> m" "m \<le> 98" "0 \<le> d" "d \<le> 9999" "\<bar>tza\<bar> \<le> msPerDay"
  shows "newDate tza (Some y) (Some m) (Some d) =
           Some (makeDay (if y \<le> 99 then 1900 + y else y) m d * msPerDay - tza)"
proof -
  define yr where "yr = (if y \<le> 99 then 1900 + y else y)"
  have "0 \<le> yr" "yr \<le> 12000" using assms(1,2) by (simp_all add: yr_def)
  from makeDay_bound[OF this assms(3-6)] assms(7)
  have "\<bar>makeDay yr m d * msPerDay - tza\<bar> \<le> 8640000000000000"
    unfolding msPerDay_def by linarith
  then show ?thesis using assms(1) by (simp add: newDate_def Let_def yr_def)
qed

lemma startsWith_20:
  assumes "list_all isDigit a" "1 \<le> length a" "length a \<le> 2" "isDateSep x"
  shows "startsWith (a @ x # rest) (js ''20'') = (a = js ''20'')"
proof -
  have x: "x \<noteq> 48" using assms(4) by (auto simp: isDateSep_def)
  consider d where "a = [d]" | d1 d2 where "a = [d1, d2]"
    using assms(2,3) by (cases a; cases "tl a"; cases "tl (tl a)") auto
  then show ?thesis
  proof cases
    case 1
    then show ?thesis using x by (auto simp: js_def)
  next
    case 2
    then show ?thesis by (auto simp: js_def)
  qed
qed

lemma date1_reading:
  assumes e: "exec rx_date1 ocrText = Some (i, m0, caps)" and tz: "\<bar>tza\<bar> \<le> msPerDay"
  shows "\<exists>a b c. caps = [a, b, c] \<and>
           list_all isDigit a \<and> a \<noteq> [] \<and> list_all isDigit b \<and> b \<noteq> [] \<and>
           list_all isDigit c \<and> c \<noteq> [] \<and>
           parseDate tza ocrText =
             (if a = js ''20'' then
                Some (isoDate (makeDay 1920 (int (digitsVal b) - 1) (int (digitsVal c)) * msPerDay - tza))
              else
                Some (isoDate (makeDay (fullYear (int (digitsVal c))) (int (digitsVal a) - 1)
                                 (int (digitsVal b)) * msPerDay - tza)))"
proof -
  from exec_date1_Some[OF e] obtain a x b y c where
    m: "m0 = a @ x # b @ y # c" "caps = [a, b, c]"
       "list_all isDigit a" "1 \<le> length a" "length a \<le> 2" "isDateSep x"
       "list_all isDigit b" "1 \<le> length b" "length b \<le> 2" "isDateSep y"
       "list_all isDigit c" "2 \<le> length c" "length c \<le> 4"
    by blast
  have ne: "a \<noteq> []" "b \<noteq> []" "c \<noteq> []" using m(4,8,12) by auto
  have pa: "parseInt a = Some (int (digitsVal a))" using parseInt_digits[OF m(3) ne(1)] .
  have pb: "parseInt b = Some (int (digitsVal b))" using parseInt_digits[OF m(7) ne(2)] .
  have pc: "parseInt c = Some (int (digitsVal c))" using parseInt_digits[OF m(11) ne(3)] .
  have ba: "digitsVal a < 100"
    using digitsVal_bound[OF m(3)] power_increasing[of "length a" 2 "10::nat"] m(5) by simp
  have bb: "digitsVal b < 100"
    using digitsVal_bound[OF m(7)] power_increasing[of "length b" 2 "10::nat"] m(9) by simp
  have bc: "digitsVal c < 10000"
    using digitsVal_bound[OF m(11)] power_increasing[of "length c" 4 "10::nat"] m(13) by simp
  have sw: "startsWith m0 (js ''20'') = (a = js ''20'')"
    unfolding m(1) by (rule startsWith_20[OF m(3,4,5,6)])
  have l4: "length a \<noteq> 4" using m(5) by simp
  have d20: "digitsVal (js ''20'') = 20"
    by (simp add: js_def digitsVal_def digitVal_def)
  have dm: "dateFromMatch tza (i, m0, caps) =
     (if a = js ''20'' then
        returnDate (newDate tza (Some (int (digitsVal a))) (Some (int (digitsVal b) - 1)) (Some (int (digitsVal c))))
      else
        returnDate (newDate tza (Some (fullYear (int (digitsVal c)))) (Some (int (digitsVal a) - 1))
                      (Some (int (digitsVal b)))))"
    unfolding m(2)
    by (simp add: dateFromMatch_numeric[OF m(7)] sw l4 pa pb pc fullYear_def d20 parseInt_examples)
  have v20: "a = js ''20'' \<Longrightarrow> digitsVal a = 20"
    using d20 by simp
  have n1: "a = js ''20'' \<Longrightarrow>
      newDate tza (Some (int (digitsVal a))) (Some (int (digitsVal b) - 1)) (Some (int (digitsVal c)))
        = Some (makeDay 1920 (int (digitsVal b) - 1) (int (digitsVal c)) * msPerDay - tza)"
    using newDate_valid[of 20 "int (digitsVal b) - 1" "int (digitsVal c)" tza] bb bc tz v20
    by simp
  have fy: "100 \<le> fullYear (int (digitsVal c))" "fullYear (int (digitsVal c)) \<le> 10000"
    using bc by (simp_all add: fullYear_def)
  have n2: "newDate tza (Some (fullYear (int (digitsVal c)))) (Some (int (digitsVal a) - 1))
                      (Some (int (digitsVal b)))
        = Some (makeDay (fullYear (int (digitsVal c))) (int (digitsVal a) - 1) (int (digitsVal b)) * msPerDay - tza)"
    using newDate_valid[of "fullYear (int (digitsVal c))" "int (digitsVal a) - 1" "int (digitsVal b)" tza]
      fy ba bb tz by simp
  have "parseDate tza ocrText =
     (if a = js ''20'' then
        Some (isoDate (makeDay 1920 (int (digitsVal b) - 1) (int (digitsVal c)) * msPerDay - tza))
      else
        Some (isoDate (makeDay (fullYear (int (digitsVal c))) (int (digitsVal a) - 1)
                         (int (digitsVal b)) * msPerDay - tza)))"
    using n1 n2 by (simp add: parseDate_def tryPattern_def e dm returnDate_cases)
  with m(2,3,7,11) ne show ?thesis by blast
qed

section \<open>Facts about the date line of the specification\<close>

lemma repFrom_Some0: "repFrom P lo (Some 0) s = (if lo = 0 then [s] else [])"
  by (cases s) auto

lemma rx_date1_nondigit: "\<not> isDigit c \<Longrightarrow> rx_date1 (cs, c # s) = []"
  by (simp add: rx_date1_def seq_def grp_def rep_def)

lemma execFrom_skip:
  "\<forall>k<n. p ([], drop k s) = [] \<Longrightarrow> n \<le> length s \<Longrightarrow> execFrom p j s = execFrom p (j + n) (drop n s)"
proof (induction s arbitrary: n j)
  case Nil
  then show ?case by simp
next
  case (Cons c s)
  show ?case
  proof (cases n)
    case 0
    then show ?thesis by simp
  next
    case (Suc n')
    from Cons.prems(1) Suc have "p ([], drop 0 (c # s)) = []" by blast
    then have h: "p ([], c # s) = []" by simp
    have "\<forall>k<n'. p ([], drop k s) = []"
    proof (intro allI impI)
      fix k assume "k < n'"
      then have "Suc k < n" using Suc by simp
      with Cons.prems(1) have "p ([], drop (Suc k) (c # s)) = []" by blast
      then show "p ([], drop k s) = []" by simp
    qed
    moreover have "n' \<le> length s" using Cons.prems(2) Suc by simp
    ultimately have "execFrom p (Suc j) s = execFrom p (Suc j + n') (drop n' s)" by (rule Cons.IH)
    with h Suc show ?thesis by simp
  qed
qed

lemma dateLine_prefix:
  assumes "j < 6"
  shows "rx_date1 ([], drop j (dateLine @ post)) = []"
proof -
  from assms consider "j = 0" | "j = 1" | "j = 2" | "j = 3" | "j = 4" | "j = 5" by arith
  then show ?thesis
    by cases (simp_all add: dateLine_def js_def rx_date1_nondigit isDigit_def)
qed

lemma execFrom_at_date:
  "execFrom rx_date1 n (js ''15/01/2024'' @ post) =
     Some (n, js ''15/01/2024'', [js ''15'', js ''01'', js ''2024''])"
  by (simp add: js_def rx_date1_def rx_defs ch_defs isDateSep_def repFrom_Some0)

lemma exec_dateLine:
  assumes "\<forall>k<length pre. rx_date1 ([], drop k (pre @ dateLine @ post)) = []"
  shows "exec rx_date1 (pre @ dateLine @ post) =
           Some (length pre + 6, js ''15/01/2024'', [js ''15'', js ''01'', js ''2024''])"
proof -
  have a: "\<forall>k<length pre + 6. rx_date1 ([], drop k (pre @ dateLine @ post)) = []"
  proof (intro allI impI)
    fix k assume k: "k < length pre + 6"
    show "rx_date1 ([], drop k (pre @ dateLine @ post)) = []"
    proof (cases "k < length pre")
      case True
      with assms show ?thesis by blast
    next
      case False
      then have "drop k (pre @ dateLine @ post) = drop (k - length pre) (dateLine @ post)" by simp
      moreover have "k - length pre < 6" using k False by arith
      ultimately show ?thesis using dateLine_prefix[of "k - length pre" post] by (simp only:)
    qed
  qed
  have l: "length pre + 6 \<le> length (pre @ dateLine @ post)"
    by (simp add: dateLine_def js_def)
  have d: "drop (length pre + 6) (pre @ dateLine @ post) = js ''15/01/2024'' @ post"
    by (simp add: dateLine_def js_def)
  show ?thesis
    unfolding exec_def execFrom_skip[OF a l, of 0] d by (simp add: execFrom_at_date)
qed

lemma digitsVal_examples:
  "digitsVal (js ''15'') = 15" "digitsVal (js ''01'') = 1" "digitsVal (js ''2024'') = 2024"
  "digitsVal (js ''02'') = 2" "digitsVal (js ''20'') = 20"
  by (simp_all add: js_def digitsVal_def digitVal_def)

lemma makeDay_2024_14_1: "makeDay 2024 14 1 = 20148"
  by (simp add: makeDay_def dayFromYear_def monthStart_def isLeap_def)

lemma purchase_date_detected:
  "parseDate (localTZA e) ocrText = Some d \<Longrightarrow> purchase_date (parseReceiptData e ocrText) = d"
  using parseDate_truthy[of "localTZA e" ocrText]
  by (simp add: parseReceiptData_def Let_def orStr_truthy)

lemma dateLine_reading:
  assumes "\<forall>k<length pre. rx_date1 ([], drop k (pre @ dateLine @ post)) = []"
    and "\<bar>localTZA e\<bar> \<le> msPerDay"
  shows "purchase_date (parseReceiptData e (pre @ dateLine @ post)) =
           isoDate (makeDay 2024 (15 - 1) 1 * msPerDay - localTZA e)"
proof -
  from date1_reading[OF exec_dateLine[OF assms(1)] assms(2)]
  have "parseDate (localTZA e) (pre @ dateLine @ post) =
          Some (isoDate (makeDay 2024 (15 - 1) 1 * msPerDay - localTZA e))"
    by (simp add: digitsVal_examples fullYear_def) (simp add: js_def)
  then show ?thesis by (rule purchase_date_detected)
qed

section \<open>Evaluations of numeric dates\<close>

lemma exec_date1_examples:
  "exec rx_date1 (js ''01/02/2024'') = Some (0, js ''01/02/2024'', [js ''01'', js ''02'', js ''2024''])"
  "exec rx_date1 (js ''20/01/2024'') = Some (0, js ''20/01/2024'', [js ''20'', js ''01'', js ''2024''])"
  by (simp_all add: exec_def rx_date1_def js_def rx_defs ch_defs isDateSep_def)

lemma zero_offset: "\<bar>0::int\<bar> \<le> msPerDay"
  by (simp add: msPerDay_def)

lemma isoDate_numerals:
  "isoDate 1740787200000 = js ''2025-03-01''"
  "isoDate 1704153600000 = js ''2024-01-02''"
  by (simp_all add: isoDate_def msPerDay_def civil_defs padStart_def showNat_eval js_def)

lemma makeDay_2024_0_2: "makeDay 2024 0 2 = 19724"
  by (simp add: makeDay_def dayFromYear_def monthStart_def isLeap_def)

lemma parseDate_01_02_2024: "parseDate 0 (js ''01/02/2024'') = Some (js ''2024-01-02'')"
  using date1_reading[OF exec_date1_examples(1) zero_offset]
  by (simp add: digitsVal_examples fullYear_def makeDay_2024_0_2 isoDate_20240102)
     (simp add: js_def)

section \<open>Facts about the calendar: a date and its day number\<close>

lemma div_between:
  assumes "0 < n" "n * q \<le> x" "x < n * q + n"
  shows "(x::int) div n = q"
proof -
  have "x = n * q + (x - n * q)" by simp
  then have "x div n = (n * q + (x - n * q)) div n" by simp
  also have "\<dots> = q + (x - n * q) div n" using assms(1) by (simp only: div_mult_self4) 
  also have "(x - n * q) div n = 0" using assms by (intro div_pos_pos_trivial) simp_all
  finally show ?thesis by simp
qed

lemma div_pred:
  assumes "0 < n"
  shows "(y::int) div n = (y - 1) div n + (if y mod n = 0 then 1 else 0)"
proof -
  define q where "q = (y - 1) div n"
  define r where "r = (y - 1) mod n"
  have y: "y - 1 = n * q + r" unfolding q_def r_def by simp
  have r: "0 \<le> r" "r < n" unfolding r_def using assms by simp_all
  show ?thesis
  proof (cases "r = n - 1")
    case True
    then have e: "y = n * (q + 1)" using y by (simp add: algebra_simps)
    then have "y mod n = 0" "y div n = q + 1" using assms by simp_all
    then show ?thesis by (simp add: q_def)
  next
    case False
    then have b: "n * q \<le> y" "y < n * q + n" "n * q < y" using y r by simp_all
    from div_between[OF assms b(1,2)] have d: "y div n = q" .
    have "y mod n = y - n * (y div n)" by (simp add: minus_mult_div_eq_mod)
    then have "y mod n \<noteq> 0" using d b(3) by simp
    then show ?thesis using d by (simp add: q_def)
  qed
qed

lemma dayFromYear_leaps: "dayFromYear y = 365 * y + leapsTo (y - 1) - 719527"
proof -
  have "(y - 1969) div 4 = (4 * (- 492) + (y - 1)) div 4" by simp
  also have "\<dots> = - 492 + (y - 1) div 4" by (subst div_mult_self4) simp_all
  finally have a: "(y - 1969) div 4 = - 492 + (y - 1) div 4" .
  have "(y - 1901) div 100 = (100 * (- 19) + (y - 1)) div 100" by simp
  also have "\<dots> = - 19 + (y - 1) div 100" by (subst div_mult_self4) simp_all
  finally have b: "(y - 1901) div 100 = - 19 + (y - 1) div 100" .
  have "(y - 1601) div 400 = (400 * (- 4) + (y - 1)) div 400" by simp
  also have "\<dots> = - 4 + (y - 1) div 400" by (subst div_mult_self4) simp_all
  finally have c: "(y - 1601) div 400 = - 4 + (y - 1) div 400" .
  show ?thesis unfolding dayFromYear_def leapsTo_def a b c by simp
qed

lemma leapsTo_step: "leapsTo y = leapsTo (y - 1) + (if isLeap y then 1 else 0)"
proof -
  have a: "y mod 100 = 0 \<Longrightarrow> y mod 4 = 0" using mod_mod_cancel[of 4 100 y] by simp
  have b: "y mod 400 = 0 \<Longrightarrow> y mod 100 = 0" using mod_mod_cancel[of 100 400 y] by simp
  have d4: "y div 4 = (y - 1) div 4 + (if y mod 4 = 0 then 1 else 0)" by (rule div_pred) simp
  have d100: "y div 100 = (y - 1) div 100 + (if y mod 100 = 0 then 1 else 0)" by (rule div_pred) simp
  have d400: "y div 400 = (y - 1) div 400 + (if y mod 400 = 0 then 1 else 0)" by (rule div_pred) simp
  show ?thesis
  proof (cases "y mod 400 = 0")
    case True
    then show ?thesis using a b unfolding leapsTo_def isLeap_def d4 d100 d400 by simp
  next
    case n400: False
    show ?thesis
    proof (cases "y mod 100 = 0")
      case True
      then show ?thesis using a n400 unfolding leapsTo_def isLeap_def d4 d100 d400 by simp
    next
      case False
      then show ?thesis using n400 unfolding leapsTo_def isLeap_def d4 d100 d400 by simp
    qed
  qed
qed

lemma leapsTo_era:
  assumes "0 \<le> r" "r < 400"
  shows "leapsTo (400 * e + r) = 97 * e + r div 4 - r div 100"
proof -
  have "(400 * e + r) div 4 = (4 * (100 * e) + r) div 4" by simp
  also have "\<dots> = 100 * e + r div 4" by (subst div_mult_self4) simp_all
  finally have a: "(400 * e + r) div 4 = 100 * e + r div 4" .
  have "(400 * e + r) div 100 = (100 * (4 * e) + r) div 100" by simp
  also have "\<dots> = 4 * e + r div 100" by (subst div_mult_self4) simp_all
  finally have b: "(400 * e + r) div 100 = 4 * e + r div 100" .
  have c: "(400 * e + r) div 400 = e" using assms by (intro div_between) simp_all
  show ?thesis unfolding leapsTo_def a b c by simp
qed

lemma yearOfEra_parts:
  assumes c: "0 \<le> c" "c \<le> 3" and a: "0 \<le> a" "a \<le> 24" and b: "0 \<le> b" "b \<le> 3"
    and doy: "0 \<le> doy" "doy \<le> 364 \<or> (doy = 365 \<and> b = 3 \<and> (a \<noteq> 24 \<or> c = 3))"
  shows "yearOfEra (36524 * c + 1461 * a + 365 * b + doy) = 100 * c + 4 * a + b"
proof (cases "c = 3 \<and> a = 24 \<and> b = 3 \<and> doy = 365")
  case True
  then show ?thesis by (simp add: yearOfEra_def)
next
  case False
  define doe where "doe = 36524 * c + 1461 * a + 365 * b + doy"
  define rem where "rem = 24 * c + a + 365 * b + doy"
  define e where "e = (if 1460 \<le> rem then 1 else 0 :: int)"
  have x: "1461 * a + 365 * b + doy \<le> 36523" using False a b c doy by auto
  have d1: "doe div 36524 = c"
    by (rule div_between) (use x a b c doy in \<open>simp_all add: doe_def\<close>)
  have d2: "doe div 146096 = 0"
    by (rule div_between) (use x a b c doy in \<open>simp_all add: doe_def\<close>)
  have remb: "0 \<le> rem" "rem < 2920" using a b c doy by (auto simp: rem_def)
  have d3: "doe div 1460 = 25 * c + a + e"
    by (rule div_between) (use remb in \<open>auto simp: doe_def rem_def e_def\<close>)
  have t: "doe - doe div 1460 + doe div 36524 - doe div 146096 = 365 * (100 * c + 4 * a + b) + (doy - e)"
    unfolding d1 d2 d3 by (simp add: doe_def)
  have lo: "0 \<le> doy - e" using a b c doy by (auto simp: e_def rem_def)
  have hi: "doy - e \<le> 364" using a b c doy by (auto simp: e_def rem_def)
  have "yearOfEra doe = 100 * c + 4 * a + b"
    unfolding yearOfEra_def t by (rule div_between) (use lo hi in simp_all)
  then show ?thesis by (simp add: doe_def)
qed

lemma yearOfEra_correct:
  assumes yoe: "0 \<le> yoe" "yoe < 400"
    and doy: "0 \<le> doy" "doy \<le> 364 \<or> (doy = 365 \<and> isLeap (400 * e + yoe + 1))"
  shows "yearOfEra (365 * yoe + yoe div 4 - yoe div 100 + doy) = yoe"
proof -
  define c where "c = yoe div 100"
  define t where "t = yoe mod 100"
  define a where "a = t div 4"
  define b where "b = t mod 4"
  have yt: "yoe = 100 * c + t" unfolding c_def t_def by simp
  have tb: "0 \<le> t" "t < 100" unfolding t_def by simp_all
  have ta: "t = 4 * a + b" unfolding a_def b_def by simp
  have bb: "0 \<le> b" "b < 4" unfolding b_def by simp_all
  have cb: "0 \<le> c" "c \<le> 3" using yoe yt tb by simp_all
  have ab: "0 \<le> a" "a \<le> 24" using ta tb bb by simp_all
  have y: "yoe = 100 * c + 4 * a + b" using yt ta by simp
  have d4: "yoe div 4 = 25 * c + a"
    by (rule div_between) (use y bb in simp_all)
  have d100: "yoe div 100 = c" by (simp add: c_def)
  have leap: "b = 3 \<and> (a \<noteq> 24 \<or> c = 3)" if l: "isLeap (400 * e + yoe + 1)"
  proof -
    have "(400 * e + yoe + 1) mod 4 = (4 * (100 * e + 25 * c + a) + (b + 1)) mod 4"
      unfolding y by (simp add: algebra_simps)
    also have "\<dots> = (b + 1) mod 4" by (rule mod_mult_self4)
    finally have m4: "(400 * e + yoe + 1) mod 4 = (b + 1) mod 4" .
    have b3: "b = 3"
    proof (rule ccontr)
      assume "b \<noteq> 3"
      then have "(b + 1) mod 4 = b + 1" using bb by (intro mod_pos_pos_trivial) simp_all
      then show False using l m4 bb by (simp add: isLeap_def)
    qed
    have "c = 3" if a24: "a = 24"
    proof (rule ccontr)
      assume c3: "c \<noteq> 3"
      have "(400 * e + yoe + 1) mod 100 = (100 * (4 * e + c + 1) + 0) mod 100"
        unfolding y a24 b3 by (simp add: algebra_simps)
      also have "\<dots> = 0 mod 100" by (rule mod_mult_self4)
      finally have m100: "(400 * e + yoe + 1) mod 100 = 0" by simp
      have "(400 * e + yoe + 1) mod 400 = (400 * e + (100 * c + 100)) mod 400"
        unfolding y a24 b3 by (simp add: algebra_simps)
      also have "\<dots> = (100 * c + 100) mod 400" by (rule mod_mult_self4)
      also have "\<dots> = 100 * c + 100" using cb c3 by (intro mod_pos_pos_trivial) simp_all
      finally have "(400 * e + yoe + 1) mod 400 \<noteq> 0" using cb by simp
      then show False using l m100 by (simp add: isLeap_def)
    qed
    then show ?thesis using b3 by blast
  qed
  have E: "365 * yoe + yoe div 4 - yoe div 100 + doy = 36524 * c + 1461 * a + 365 * b + doy"
    unfolding d4 d100 by (simp add: y)
  have P: "yearOfEra (36524 * c + 1461 * a + 365 * b + doy) = 100 * c + 4 * a + b"
    by (rule yearOfEra_parts) (use cb ab bb doy leap in auto)
  show ?thesis unfolding E P using y by simp
qed

lemma civil_roundtrip:
  assumes m: "1 \<le> m" "m \<le> 12" and d: "1 \<le> d" "d \<le> daysInMonth y m"
  shows "civilFromDays (makeDay y (m - 1) d) = (y, m, d)"
proof -
  define j where "j = (if m \<le> 2 then 1 else 0 :: int)"
  define y0 where "y0 = y - j"
  define e where "e = y0 div 400"
  define yoe where "yoe = y0 mod 400"
  define mp where "mp = m - 3 + 12 * j"
  define S where "S = (153 * mp + 2) div 5"
  define doy where "doy = S + d - 1"
  define doe where "doe = 365 * yoe + yoe div 4 - yoe div 100 + doy"
  have mc: "m = 1 \<or> m = 2 \<or> m = 3 \<or> m = 4 \<or> m = 5 \<or> m = 6 \<or> m = 7 \<or> m = 8 \<or> m = 9 \<or>
            m = 10 \<or> m = 11 \<or> m = 12"
    using m by arith
  have ms: "monthStart (m - 1) (isLeap y) =
              S - 306 * j + (1 - j) * (59 + (if isLeap y then 1 else 0))"
    using mc by (elim disjE) (simp_all add: monthStart_def S_def mp_def j_def)
  have dv: "(m - 1) div 12 = 0" "(m - 1) mod 12 = m - 1"
    using m by simp_all
  have md: "makeDay y (m - 1) d = dayFromYear y + monthStart (m - 1) (isLeap y) + d - 1"
    by (simp add: makeDay_def Let_def dv)
  have z: "makeDay y (m - 1) d + 719468 = 365 * y0 + leapsTo y0 + doy"
  proof (cases "m \<le> 2")
    case True
    then show ?thesis
      unfolding md ms dayFromYear_leaps by (simp add: j_def y0_def doy_def)
  next
    case False
    then show ?thesis
      unfolding md ms dayFromYear_leaps using leapsTo_step[of y]
      by (simp add: j_def y0_def doy_def)
  qed
  have y0: "y0 = 400 * e + yoe" unfolding e_def yoe_def by simp
  have yb: "0 \<le> yoe" "yoe < 400" unfolding yoe_def by simp_all
  have lt: "leapsTo y0 = 97 * e + yoe div 4 - yoe div 100"
    unfolding y0 by (rule leapsTo_era) (use yb in simp_all)
  have z': "makeDay y (m - 1) d + 719468 = 146097 * e + doe"
    unfolding z lt doe_def by (simp add: y0)
  have yj: "(m = 2 \<longrightarrow> y = 400 * e + yoe + 1)"
    using y0 unfolding y0_def j_def by auto
  have doyb': "0 \<le> doy \<and> (doy \<le> 364 \<or> (doy = 365 \<and> isLeap (400 * e + yoe + 1)))"
    using mc d yj
    by (elim disjE) (auto simp: doy_def S_def mp_def j_def daysInMonth_def split: if_splits)
  then have doyb: "0 \<le> doy" "doy \<le> 364 \<or> (doy = 365 \<and> isLeap (400 * e + yoe + 1))"
    by simp_all
  have mpb: "153 * mp \<le> 5 * doy + 2 \<and> 5 * doy + 2 < 153 * mp + 153"
    using mc d
    by (elim disjE) (simp_all add: doy_def S_def mp_def j_def daysInMonth_def split: if_splits)
  have mpv: "monthPart doy = mp"
    unfolding monthPart_def by (rule div_between) (use mpb in simp_all)
  have q4: "yoe div 4 \<le> 99" "0 \<le> yoe div 4" "yoe div 100 \<le> yoe div 4" "0 \<le> yoe div 100"
    "yoe = 399 \<longrightarrow> yoe div 100 = 3"
    using yb zdiv_mono1[of yoe 399 4] zdiv_mono2[of yoe 4 100] by auto
  have doeb: "0 \<le> doe" "doe < 146097"
    using yb doyb q4 by (auto simp: doe_def)
  have dd: "(makeDay y (m - 1) d + 719468) div 146097 = e"
    unfolding z' by (rule div_between) (use doeb in simp_all)
  have dm: "(makeDay y (m - 1) d + 719468) mod 146097 = doe"
  proof -
    have "(146097 * e + doe) mod 146097 = doe mod 146097" by (rule mod_mult_self4)
    also have "\<dots> = doe" using doeb by (intro mod_pos_pos_trivial)
    finally show ?thesis unfolding z' .
  qed
  have yv: "yearOfEra doe = yoe"
    unfolding doe_def by (rule yearOfEra_correct) (use yb doyb in auto)
  have dy: "dayOfYear doe yoe = doy" by (simp add: dayOfYear_def doe_def)
  have cm: "civilMonth mp = m"
    using mc by (elim disjE) (simp_all add: civilMonth_def mp_def j_def)
  have cd: "civilDay doy mp = d" by (simp add: civilDay_def doy_def S_def)
  have cy: "civilYear e yoe m = y"
    using y0 by (simp add: civilYear_def y0_def j_def)
  show ?thesis
    unfolding civilFromDays_def dd dm civilFromEra_def yv dy mpv cm cd cy by simp
qed

section \<open>The month/day/year reading of a date that exists\<close>

lemma isoDate_civil:
  assumes "1 \<le> m" "m \<le> 12" "1 \<le> d" "d \<le> daysInMonth y m" "0 \<le> y" "y \<le> 9999"
    and "0 \<le> off" "off < msPerDay"
  shows "isoDate (makeDay y (m - 1) d * msPerDay + off) = isoYMD y m d"
proof -
  have "(makeDay y (m - 1) d * msPerDay + off) div msPerDay = makeDay y (m - 1) d"
    by (rule div_between) (use assms(7,8) in \<open>simp_all add: msPerDay_def\<close>)
  then show ?thesis
    using assms(5,6) by (simp add: isoDate_def civil_roundtrip[OF assms(1-4)] isoYMD_def)
qed

lemma date1_valid_reading:
  assumes e: "exec rx_date1 ocrText = Some (i, m0, [a, b, c])"
    and ma: "1 \<le> digitsVal a" "digitsVal a \<le> 12"
    and db: "1 \<le> digitsVal b"
      "int (digitsVal b) \<le> daysInMonth (fullYear (int (digitsVal c))) (int (digitsVal a))"
    and tz: "- msPerDay < tza" "tza \<le> 0"
  shows "parseDate tza ocrText =
           Some (isoYMD (fullYear (int (digitsVal c))) (int (digitsVal a)) (int (digitsVal b)))"
proof -
  have tz': "\<bar>tza\<bar> \<le> msPerDay" using tz by simp
  have a20: "a \<noteq> js ''20''" using ma(2) by (auto simp: digitsVal_examples)
  from exec_date1_Some[OF e] have c: "list_all isDigit c" "length c \<le> 4" by auto
  from digitsVal_bound[OF c(1)] have "digitsVal c < 10 ^ 4"
    using c(2) by (meson le_less_trans less_le_trans power_increasing one_le_numeral not_le)
  then have y: "0 \<le> fullYear (int (digitsVal c))" "fullYear (int (digitsVal c)) \<le> 9999"
    by (simp_all add: fullYear_def)
  from date1_reading[OF e tz'] a20
  have "parseDate tza ocrText =
          Some (isoDate (makeDay (fullYear (int (digitsVal c))) (int (digitsVal a) - 1)
                           (int (digitsVal b)) * msPerDay - tza))"
    by simp
  also have "makeDay (fullYear (int (digitsVal c))) (int (digitsVal a) - 1) (int (digitsVal b)) * msPerDay - tza
      = makeDay (fullYear (int (digitsVal c))) (int (digitsVal a) - 1) (int (digitsVal b)) * msPerDay + (- tza)"
    by simp
  also have "isoDate \<dots> = isoYMD (fullYear (int (digitsVal c))) (int (digitsVal a)) (int (digitsVal b))"
    by (rule isoDate_civil) (use ma db y tz in simp_all)
  finally show ?thesis .
qed

lemma isoYMD_examples:
  "isoYMD 2024 1 2 = js ''2024-01-02''" "isoYMD 2099 12 31 = js ''2099-12-31''"
  by (simp_all add: isoYMD_def padStart_def showNat_eval js_def)

lemma exec_date1_123199:
  "exec rx_date1 (js ''12/31/99'') = Some (0, js ''12/31/99'', [js ''12'', js ''31'', js ''99''])"
  by (simp add: exec_def rx_date1_def js_def rx_defs ch_defs isDateSep_def)

lemma digitsVal_examples2:
  "digitsVal (js ''12'') = 12" "digitsVal (js ''31'') = 31" "digitsVal (js ''99'') = 99"
  by (simp_all add: js_def digitsVal_def digitVal_def)

lemma daysInMonth_examples: "daysInMonth 2024 1 = 31" "daysInMonth 2099 12 = 31"
  by (simp_all add: daysInMonth_def)

lemma isoDate_numerals2: "isoDate 1740767400000 = js ''2025-02-28''"
  by (simp add: isoDate_def msPerDay_def civil_defs padStart_def showNat_eval js_def)

section \<open>Evaluations of the item scenario\<close>

lemma exec_price_item2:
  "exec rx_price (js ''ITEM 2  2x    50.00'') = Some (14, js ''50.00'', [js ''50.00''])"
  by (simp add: exec_def rx_price_def js_def rx_defs ch_defs)

lemma split_item2:
  "split rx_spaces2 (js ''ITEM 2  2x    50.00'') = [js ''ITEM 2'', js ''2x'', js ''50.00'']"
  by (simp add: split_def rx_spaces2_def js_def rx_defs ch_defs)

lemma exec_qty_2x: "exec rx_qty (js ''2x'') = Some (0, js ''2x'', [js ''2''])"
  by (simp add: exec_def rx_qty_def js_def rx_defs ch_defs)

lemma exec_qty_5000: "exec rx_qty (js ''50.00'') = Some (0, js ''50.00'', [js ''50.00''])"
  by (simp add: exec_def rx_qty_def js_def rx_defs ch_defs)

lemma parseFloat_5000: "parseFloat (removeCommas (js ''50.00'')) = Num 50"
  by (simp add: parseFloat_def removeCommas_def js_def ch_defs digitsVal_def digitVal_def roundDouble_examples)

lemma parseFloat_5000': "parseFloat (js ''50.00'') = Num 50"
  by (simp add: parseFloat_def js_def ch_defs digitsVal_def digitVal_def roundDouble_examples)

lemma parseFloat_2: "parseFloat (js ''2'') = Num 2"
  by (simp add: parseFloat_def js_def ch_defs digitsVal_def digitVal_def roundDouble_examples)

lemma itemsEnd_item2: "itemsEnd [js ''ITEM 2  2x    50.00''] = 1"
  by (simp add: itemsEnd_def totalsKeywords_def toLowerCase_def lowerUnit_def js_def ch_defs)

lemma parseItems_item2:
  "parseItems [js ''ITEM 2  2x    50.00''] =
     [\<lparr>description = js ''ITEM 2'', quantity = Num 50, unit_price = Some (Num 1),
       total_price = Num 50, serial_no = 1\<rparr>]"
  by (simp add: parseItems_def itemsEnd_item2 itemStep_def exec_price_item2 split_item2
      partStep_def exec_qty_2x exec_qty_5000 parseFloat_5000 parseFloat_5000' parseFloat_2
      jsGt_def jsDiv_def Let_def roundDouble_examples)

lemma normalizeLines_item2:
  "normalizeLines (js ''ITEM 2  2x    50.00'') = [js ''ITEM 2  2x    50.00'']"
  by (simp add: normalizeLines_def trim_def js_def ch_defs)

lemma roundDouble_quotients:
  "roundDouble 5 = 5" "roundDouble (15 / 2) = 15 / 2"
  "roundDouble (30864 / 25) = 2714826150374277 / 2199023255552"
  "roundDouble (2714826150374277 / 2199023255552 / 5) = 4343721840598843 / 17592186044416"
  "roundDouble (2714826150374277 / 10995116277760) = 4343721840598843 / 17592186044416"
  by (simp_all add: round_defs)

lemma exec_price_item5:
  "exec rx_price (js ''ITEM  5 1234.56'') = Some (8, js ''1234.56'', [js ''1234.56''])"
  by (simp add: exec_def rx_price_def js_def rx_defs ch_defs)

lemma split_item5:
  "split rx_spaces2 (js ''ITEM  5 1234.56'') = [js ''ITEM'', js ''5 1234.56'']"
  by (simp add: split_def rx_spaces2_def js_def rx_defs ch_defs)

lemma exec_qty_item5: "exec rx_qty (js ''5 1234.56'') = Some (0, js ''5'', [js ''5''])"
  by (simp add: exec_def rx_qty_def js_def rx_defs ch_defs)

lemma parseFloat_item5:
  "parseFloat (removeCommas (js ''1234.56'')) = Num (2714826150374277 / 2199023255552)"
  "parseFloat (js ''5'') = Num 5"
  by (simp_all add: parseFloat_def removeCommas_def js_def ch_defs digitsVal_def digitVal_def
      roundDouble_quotients)

lemma itemsEnd_item5: "itemsEnd [js ''ITEM  5 1234.56''] = 1"
  by (simp add: itemsEnd_def totalsKeywords_def toLowerCase_def lowerUnit_def js_def ch_defs)

lemma parseItems_item5:
  "parseItems [js ''ITEM  5 1234.56''] =
     [\<lparr>description = js ''ITEM'', quantity = Num 5,
       unit_price = Some (Num (4343721840598843 / 17592186044416)),
       total_price = Num (2714826150374277 / 2199023255552), serial_no = 1\<rparr>]"
  by (simp add: parseItems_def itemsEnd_item5 itemStep_def exec_price_item5 split_item5
      partStep_def exec_qty_item5 parseFloat_item5 jsGt_def jsDiv_def Let_def
      roundDouble_quotients)

lemma exec_price_free:
  "exec rx_price (js ''FREE  0 7.50'') = Some (8, js ''7.50'', [js ''7.50''])"
  by (simp add: exec_def rx_price_def js_def rx_defs ch_defs)

lemma split_free:
  "split rx_spaces2 (js ''FREE  0 7.50'') = [js ''FREE'', js ''0 7.50'']"
  by (simp add: split_def rx_spaces2_def js_def rx_defs ch_defs)

lemma exec_qty_free: "exec rx_qty (js ''0 7.50'') = Some (0, js ''0'', [js ''0''])"
  by (simp add: exec_def rx_qty_def js_def rx_defs ch_defs)

lemma parseFloat_free:
  "parseFloat (removeCommas (js ''7.50'')) = Num (15 / 2)"
  "parseFloat (js ''0'') = Num 0"
  by (simp_all add: parseFloat_def removeCommas_def js_def ch_defs digitsVal_def digitVal_def
      roundDouble_quotients roundDouble_examples)

lemma itemsEnd_free: "itemsEnd [js ''FREE  0 7.50''] = 1"
  by (simp add: itemsEnd_def totalsKeywords_def toLowerCase_def lowerUnit_def js_def ch_defs)

lemma parseItems_free:
  "parseItems [js ''FREE  0 7.50''] =
     [\<lparr>description = js ''FREE'', quantity = Num 0, unit_price = None,
       total_price = Num (15 / 2), serial_no = 1\<rparr>]"
  by (simp add: parseItems_def itemsEnd_free itemStep_def exec_price_free split_free
      partStep_def exec_qty_free parseFloat_free jsGt_def jsDiv_def Let_def)

section \<open>Line items: the claims\<close>

text \<open>
  Claim C4. The spec expects the line \<open>ITEM 2  2x    50.00\<close> to give one item with quantity
  2, total price 50.00 and unit price 25.00. The parser gives quantity 50 and unit price 1:
  the quantity pattern is not anchored and its \<open>x\<close> is optional, so after the part \<open>2x\<close> has
  set the quantity to 2, the part \<open>50.00\<close> (the price itself) matches the quantity pattern
  too and overwrites it.
\<close>

theorem items_of_item2_line:
  "items (parseReceiptData e (js ''ITEM 2  2x    50.00'')) =
     [\<lparr>description = js ''ITEM 2'', quantity = Num 50, unit_price = Some (Num 1),
       total_price = Num 50, serial_no = 1\<rparr>]"
  by (simp add: parseReceiptData_def Let_def normalizeLines_item2 parseItems_item2)

text \<open>
  Claim C7. For every list of lines, and so for every input of the parser, the serial
  numbers of the emitted items are exactly 1, 2, ..., N in the order of emission, N being the
  number of items.
\<close>

theorem parseItems_serial_dense:
  "map serial_no (parseItems lines) = [1..<Suc (length (parseItems lines))] \<and>
   map serial_no (items (parseReceiptData e ocrText)) =
     [1..<Suc (length (items (parseReceiptData e ocrText)))]"
  using parseItems_inv[of lines] parseItems_inv[of "normalizeLines ocrText"]
  by (simp add: itemsInv_def parseReceiptData_def Let_def)

text \<open>
  Claim C10. The branch of parseItems that would take the unit price from a money token of
  its own is never taken: a part that the quantity pattern does not match holds no digit, so
  it is not a money token, and the loop over the parts leaves unitPrice as it was (null).
  So for every emitted item the total price p and the final quantity q are numbers (never
  NaN) that are not negative, and the unit price is null when q is 0 and else p divided by
  q, as the division of doubles gives it: the quotient p / q rounded to the nearest double.
  For the line \<open>ITEM  5 1234.56\<close> the unit price is the double nearest to 1234.56 divided
  by 5, which is 246.91199999999998; for the line \<open>FREE  0 7.50\<close> it is null. Money
  tokens beyond the range of doubles, which parse to Infinity, are outside the model.
\<close>

theorem parseItems_unit_price_derived:
  "(\<forall>totalPrice st part. snd (partStep totalPrice st part) = snd st) \<and>
   (\<forall>it \<in> set (parseItems lines).
      \<exists>p q. total_price it = Num p \<and> 0 \<le> p \<and> quantity it = Num q \<and> 0 \<le> q \<and>
            unit_price it = (if q = 0 then None else Some (Num (roundDouble (p / q)))))"
  using parseItems_inv[of lines] partStep_snd by (simp add: itemsInv_def unitPriceDerived_def)

theorem parseItems_unit_price_derived_witness:
  "parseItems [js ''ITEM  5 1234.56''] =
     [\<lparr>description = js ''ITEM'', quantity = Num 5,
       unit_price = Some (Num (4343721840598843 / 17592186044416)),
       total_price = Num (2714826150374277 / 2199023255552), serial_no = 1\<rparr>] \<and>
   roundDouble (2714826150374277 / 2199023255552 / 5) = 4343721840598843 / 17592186044416 \<and>
   parseItems [js ''FREE  0 7.50''] =
     [\<lparr>description = js ''FREE'', quantity = Num 0, unit_price = None,
       total_price = Num (15 / 2), serial_no = 1\<rparr>]"
proof -
  from parseItems_unit_price_derived[of "[js ''ITEM  5 1234.56'']"]
  obtain p q where pq: "Num (2714826150374277 / 2199023255552) = Num p" "Num 5 = Num q"
    "Some (Num (4343721840598843 / 17592186044416)) =
       (if q = 0 then None else Some (Num (roundDouble (p / q))))"
    unfolding parseItems_item5 by auto
  from pq(1) have p: "2714826150374277 / 2199023255552 = p" by (simp only: jsnum.inject)
  from pq(2) have q: "5 = q" by (simp only: jsnum.inject)
  have q0: "\<not> (5::rat) = 0" by simp
  from pq(3) have "Some (Num (4343721840598843 / 17592186044416)) =
      Some (Num (roundDouble (2714826150374277 / 2199023255552 / 5)))"
    unfolding p[symmetric] q[symmetric] using q0 by (simp only: if_False)
  then have r: "roundDouble (2714826150374277 / 2199023255552 / 5) = 4343721840598843 / 17592186044416"
    by (simp only: option.inject jsnum.inject)
  from parseItems_unit_price_derived[of "[js ''FREE  0 7.50'']"]
  have f: "parseItems [js ''FREE  0 7.50''] =
     [\<lparr>description = js ''FREE'', quantity = Num 0, unit_price = None,
       total_price = Num (15 / 2), serial_no = 1\<rparr>]"
    by (simp add: parseItems_free)
  show ?thesis by (intro conjI parseItems_item5 r f)
qed

section \<open>Totals and tax: the claims\<close>

text \<open>
  Claim C2 (amended). For every input, total_amount is the maximum of the totals candidates
  and tax_amount is the last tax candidate, each 0 when there is none. A tax candidate is
  the last money token of a line, among the last 15 normalized lines, that contains tax, vat
  or gst; a totals candidate is the last money token of a line that contains none of these
  three words and contains total but not sub, or contains grand or amount. The three lines
  of the totals scenario give tax_amount 6.00 and total_amount 66.00.
\<close>

theorem totals_policy:
  "(\<exists>qs ts. totalCands (bottomLines (normalizeLines text)) = map Num qs \<and>
            taxCands (bottomLines (normalizeLines text)) = map Num ts \<and>
            total_amount (parseReceiptData e text) = Num (if qs = [] then 0 else Max (set qs)) \<and>
            tax_amount (parseReceiptData e text) = Num (if ts = [] then 0 else last ts)) \<and>
   tax_amount (parseReceiptData e totalsExample) = Num 6 \<and>
   total_amount (parseReceiptData e totalsExample) = Num 66"
  using totals_char[of "text" e] totals_of_example[of e] by blast

text \<open>
  Claim C2, as stated, fails: it counts every line with total (and no sub) as a totals
  candidate. The line \<open>Total incl. tax 66.00\<close> is one, with the money token 66.00, but the
  parser takes it as a tax line: total_amount is 0 and tax_amount is 66.
\<close>

theorem total_tax_line_counterexample:
  "claimedTotalCands (bottomLines (normalizeLines (js ''Total incl. tax 66.00''))) = [Num 66] \<and>
   total_amount (parseReceiptData \<lparr>localTZA = 0, nowDate = 0, nowStamp = 0\<rparr> (js ''Total incl. tax 66.00''))
     = Num 0 \<and>
   tax_amount (parseReceiptData \<lparr>localTZA = 0, nowDate = 0, nowStamp = 0\<rparr> (js ''Total incl. tax 66.00''))
     = Num 66"
  by (simp add: total_amount_eq tax_amount_eq normalizeLines_total_tax bottomLines_def
      claimedTotalCands_def totalCands_def taxCands_def totalCandidateLine_def taxCandidateLine_def
      parsedAmounts_examples words_examples orZero_def)

text \<open>
  Claim C8. For every input, total_amount and tax_amount are numbers that are not negative,
  and each is exactly 0 when none of the last 15 normalized lines is a candidate for it.
\<close>

theorem totals_nonnegative:
  "(\<exists>t x. total_amount (parseReceiptData e text) = Num t \<and> 0 \<le> t \<and>
          tax_amount (parseReceiptData e text) = Num x \<and> 0 \<le> x) \<and>
   ((\<forall>l \<in> set (bottomLines (normalizeLines text)). \<not> totalCandidateLine l) \<longrightarrow>
      total_amount (parseReceiptData e text) = Num 0) \<and>
   ((\<forall>l \<in> set (bottomLines (normalizeLines text)). \<not> taxCandidateLine l) \<longrightarrow>
      tax_amount (parseReceiptData e text) = Num 0)"
proof -
  obtain qs ts where h:
    "totalCands (bottomLines (normalizeLines text)) = map Num qs"
    "taxCands (bottomLines (normalizeLines text)) = map Num ts"
    "\<forall>q \<in> set qs. 0 \<le> q" "\<forall>q \<in> set ts. 0 \<le> q"
    "total_amount (parseReceiptData e text) = Num (if qs = [] then 0 else Max (set qs))"
    "tax_amount (parseReceiptData e text) = Num (if ts = [] then 0 else last ts)"
    using totals_char[of "text" e] by blast
  have "0 \<le> (if qs = [] then 0 else Max (set qs))"
  proof (cases qs)
    case Nil
    then show ?thesis by simp
  next
    case (Cons q qs')
    have "q \<le> Max (set qs)" unfolding Cons by (rule Max_ge) simp_all
    moreover have "0 \<le> q" using h(3) Cons by simp
    ultimately have "0 \<le> Max (set qs)" by (rule order_trans[rotated])
    then show ?thesis by simp
  qed
  moreover have "0 \<le> (if ts = [] then 0 else last ts)"
    using h(4) by auto
  moreover have "(\<forall>l \<in> set (bottomLines (normalizeLines text)). \<not> totalCandidateLine l) \<longrightarrow> qs = []"
    using h(1) by (auto simp: totalCands_def filter_empty_conv)
  moreover have "(\<forall>l \<in> set (bottomLines (normalizeLines text)). \<not> taxCandidateLine l) \<longrightarrow> ts = []"
    using h(2) by (auto simp: taxCands_def filter_empty_conv)
  ultimately show ?thesis using h(5,6) by auto
qed

theorem totals_nonnegative_witness:
  "bottomLines (normalizeLines (js ''Thank you'')) = [js ''Thank you''] \<and>
   \<not> totalCandidateLine (js ''Thank you'') \<and> \<not> taxCandidateLine (js ''Thank you'') \<and>
   total_amount (parseReceiptData \<lparr>localTZA = 0, nowDate = 0, nowStamp = 0\<rparr> (js ''Thank you'')) = Num 0 \<and>
   tax_amount (parseReceiptData \<lparr>localTZA = 0, nowDate = 0, nowStamp = 0\<rparr> (js ''Thank you'')) = Num 0"
  using totals_nonnegative[of "\<lparr>localTZA = 0, nowDate = 0, nowStamp = 0\<rparr>" "js ''Thank you''"]
  by (simp add: normalizeLines_thank_you bottomLines_def totalCandidateLine_def taxCandidateLine_def
      parsedAmounts_examples)

section \<open>Store information: the claims\<close>

text \<open>
  Claim C9 (amended). For every input, store_website is the last line, in document order,
  among the first 10 normalized lines that matches the URL pattern, and null when none does:
  the loop assigns website at every matching line, with no test that it is still unset.
\<close>

theorem store_website_last:
  "store_website (parseReceiptData e ocrText) =
     (if filter (test rx_url) (take 10 (normalizeLines ocrText)) = [] then None
      else Some (last (filter (test rx_url) (take 10 (normalizeLines ocrText)))))"
  by (rule store_website_char)

text \<open>
  Claim C9, as stated, fails: with the two lines \<open>www.a.com\<close> and \<open>www.b.com\<close>, both
  matching the URL pattern, store_website is the second line, not the first.
\<close>

theorem store_website_first_counterexample:
  "take 10 (normalizeLines twoUrls) = [js ''www.a.com'', js ''www.b.com''] \<and>
   test rx_url (js ''www.a.com'') \<and> test rx_url (js ''www.b.com'') \<and>
   store_website (parseReceiptData \<lparr>localTZA = 0, nowDate = 0, nowStamp = 0\<rparr> twoUrls)
     = Some (js ''www.b.com'') \<and>
   js ''www.b.com'' \<noteq> js ''www.a.com''"
  by (simp add: normalizeLines_twoUrls test_url_a test_url_b store_website_twoUrls) (simp add: js_def)

section \<open>The parser as a whole: the claims\<close>

text \<open>
  Claim C1. For every input string parseReceiptData returns a record with every field set,
  and nothing is thrown: the one operation of the parser that can throw, toISOString on an
  invalid date, is never reached (the body of the try block always ends in a return or falls
  out of its if). raw_text is the input. Each field falls back to its default when its
  extractor finds nothing: store_name to \<open>Unknown Store\<close>, purchase_date to the current
  (UTC) date, total_amount and tax_amount to 0, receipt_number to \<open>REC-\<close> and the clock
  reading, currency to \<open>USD\<close>, items to the empty list. For an input that is empty or
  all white space every field has its default.
\<close>

theorem parse_populated_defaults:
  "raw_text (parseReceiptData e ocrText) = ocrText \<and>
   (\<forall>mt. \<exists>r. dateFromMatch (localTZA e) mt = Inr r) \<and>
   (info_store_name (extractStoreInfo (normalizeLines ocrText)) = None \<longrightarrow>
      store_name (parseReceiptData e ocrText) = js ''Unknown Store'') \<and>
   (parseDate (localTZA e) ocrText = None \<longrightarrow>
      purchase_date (parseReceiptData e ocrText) = isoDate (int (nowDate e))) \<and>
   (totalAmount (extractTotals (normalizeLines ocrText)) = None \<longrightarrow>
      total_amount (parseReceiptData e ocrText) = Num 0) \<and>
   (taxAmount (extractTotals (normalizeLines ocrText)) = None \<longrightarrow>
      tax_amount (parseReceiptData e ocrText) = Num 0) \<and>
   (extractReceiptNumber ocrText = None \<longrightarrow>
      receipt_number (parseReceiptData e ocrText) = js ''REC-'' @ showNat (nowStamp e)) \<and>
   (inferCurrency ocrText = None \<longrightarrow> currency (parseReceiptData e ocrText) = js ''USD'') \<and>
   (normalizeLines ocrText = [] \<longrightarrow> items (parseReceiptData e ocrText) = []) \<and>
   (list_all isSpace ocrText \<longrightarrow>
      parseReceiptData e ocrText =
        \<lparr>store_name = js ''Unknown Store'', store_address = None, store_website = None,
         purchase_date = isoDate (int (nowDate e)), total_amount = Num 0, tax_amount = Num 0,
         receipt_number = js ''REC-'' @ showNat (nowStamp e), payment_method = None,
         currency = js ''USD'', items = [], raw_text = ocrText\<rparr>)"
proof -
  have "\<forall>mt. \<exists>r. dateFromMatch (localTZA e) mt = Inr r"
    using dateFromMatch_no_throw by blast
  moreover have "list_all isSpace ocrText \<longrightarrow>
      parseReceiptData e ocrText =
        \<lparr>store_name = js ''Unknown Store'', store_address = None, store_website = None,
         purchase_date = isoDate (int (nowDate e)), total_amount = Num 0, tax_amount = Num 0,
         receipt_number = js ''REC-'' @ showNat (nowStamp e), payment_method = None,
         currency = js ''USD'', items = [], raw_text = ocrText\<rparr>"
    using parse_whitespace by blast
  ultimately show ?thesis
    by (simp add: parseReceiptData_def Let_def orStr_def truthy_def orZero_def extractors_empty)
qed

theorem parse_populated_defaults_witness:
  "list_all isSpace spaces3 \<and>
   parseReceiptData \<lparr>localTZA = 0, nowDate = 0, nowStamp = 0\<rparr> spaces3 =
     \<lparr>store_name = js ''Unknown Store'', store_address = None, store_website = None,
      purchase_date = js ''1970-01-01'', total_amount = Num 0, tax_amount = Num 0,
      receipt_number = js ''REC-0'', payment_method = None,
      currency = js ''USD'', items = [], raw_text = spaces3\<rparr> \<and>
   parseReceiptData \<lparr>localTZA = 0, nowDate = 0, nowStamp = 0\<rparr> [] =
     \<lparr>store_name = js ''Unknown Store'', store_address = None, store_website = None,
      purchase_date = js ''1970-01-01'', total_amount = Num 0, tax_amount = Num 0,
      receipt_number = js ''REC-0'', payment_method = None,
      currency = js ''USD'', items = [], raw_text = []\<rparr>"
  using parse_populated_defaults[of "\<lparr>localTZA = 0, nowDate = 0, nowStamp = 0\<rparr>" spaces3]
    parse_populated_defaults[of "\<lparr>localTZA = 0, nowDate = 0, nowStamp = 0\<rparr>" "[]"]
  by (simp add: spaces3_space isoDate_examples showNat_examples) (simp add: js_def)

text \<open>
  Claim C5 (amended). The result is a function of the text, the two clock readings and the
  offset of the local time zone. Every field but purchase_date and receipt_number depends on
  the text alone. receipt_number depends on the text alone when a receipt number is
  detected, and else on the reading of \<open>Date.now()\<close>. purchase_date depends on the text and
  the offset of the time zone when a date is detected, and else on the reading of
  \<open>new Date()\<close>.
\<close>

theorem parse_env_dependence:
  "store_name (parseReceiptData e1 ocrText) = store_name (parseReceiptData e2 ocrText) \<and>
   store_address (parseReceiptData e1 ocrText) = store_address (parseReceiptData e2 ocrText) \<and>
   store_website (parseReceiptData e1 ocrText) = store_website (parseReceiptData e2 ocrText) \<and>
   total_amount (parseReceiptData e1 ocrText) = total_amount (parseReceiptData e2 ocrText) \<and>
   tax_amount (parseReceiptData e1 ocrText) = tax_amount (parseReceiptData e2 ocrText) \<and>
   payment_method (parseReceiptData e1 ocrText) = payment_method (parseReceiptData e2 ocrText) \<and>
   currency (parseReceiptData e1 ocrText) = currency (parseReceiptData e2 ocrText) \<and>
   items (parseReceiptData e1 ocrText) = items (parseReceiptData e2 ocrText) \<and>
   raw_text (parseReceiptData e1 ocrText) = raw_text (parseReceiptData e2 ocrText) \<and>
   (extractReceiptNumber ocrText \<noteq> None \<or> nowStamp e1 = nowStamp e2 \<longrightarrow>
      receipt_number (parseReceiptData e1 ocrText) = receipt_number (parseReceiptData e2 ocrText)) \<and>
   (localTZA e1 = localTZA e2 \<and> (parseDate (localTZA e1) ocrText \<noteq> None \<or> nowDate e1 = nowDate e2) \<longrightarrow>
      purchase_date (parseReceiptData e1 ocrText) = purchase_date (parseReceiptData e2 ocrText))"
proof -
  have rn: "extractReceiptNumber ocrText \<noteq> None \<or> nowStamp e1 = nowStamp e2 \<longrightarrow>
      receipt_number (parseReceiptData e1 ocrText) = receipt_number (parseReceiptData e2 ocrText)"
    using extractReceiptNumber_truthy[of ocrText]
    by (auto simp: parseReceiptData_def Let_def orStr_truthy)
  have pd: "localTZA e1 = localTZA e2 \<and> (parseDate (localTZA e1) ocrText \<noteq> None \<or> nowDate e1 = nowDate e2) \<longrightarrow>
      purchase_date (parseReceiptData e1 ocrText) = purchase_date (parseReceiptData e2 ocrText)"
    using parseDate_truthy[of "localTZA e1" ocrText]
    by (auto simp: parseReceiptData_def Let_def orStr_truthy)
  show ?thesis using rn pd by (simp add: parseReceiptData_def Let_def)
qed

theorem parse_env_dependence_witness:
  "extractReceiptNumber receiptAndDate = Some (js ''ABC123'') \<and>
   parseDate 0 receiptAndDate = Some (js ''2024-01-02'') \<and>
   receipt_number (parseReceiptData \<lparr>localTZA = 0, nowDate = 0, nowStamp = 7\<rparr> receiptAndDate) =
   receipt_number (parseReceiptData \<lparr>localTZA = 0, nowDate = 86400000, nowStamp = 8\<rparr> receiptAndDate) \<and>
   purchase_date (parseReceiptData \<lparr>localTZA = 0, nowDate = 0, nowStamp = 7\<rparr> receiptAndDate) =
   purchase_date (parseReceiptData \<lparr>localTZA = 0, nowDate = 86400000, nowStamp = 8\<rparr> receiptAndDate)"
  using parse_env_dependence[of "\<lparr>localTZA = 0, nowDate = 0, nowStamp = 7\<rparr>" receiptAndDate
      "\<lparr>localTZA = 0, nowDate = 86400000, nowStamp = 8\<rparr>"]
  by (simp add: receiptAndDate_number receiptAndDate_date)

text \<open>
  Claim C5, as stated, fails: two calls on the empty string, one at clock reading 0 and one
  a day and 7 milliseconds later, give different receipt numbers and purchase dates.
\<close>

theorem parse_clock_counterexample:
  "receipt_number (parseReceiptData \<lparr>localTZA = 0, nowDate = 0, nowStamp = 0\<rparr> []) = js ''REC-0'' \<and>
   receipt_number (parseReceiptData \<lparr>localTZA = 0, nowDate = 86400000, nowStamp = 7\<rparr> []) = js ''REC-7'' \<and>
   purchase_date (parseReceiptData \<lparr>localTZA = 0, nowDate = 0, nowStamp = 0\<rparr> []) = js ''1970-01-01'' \<and>
   purchase_date (parseReceiptData \<lparr>localTZA = 0, nowDate = 86400000, nowStamp = 7\<rparr> []) = js ''1970-01-02'' \<and>
   parseReceiptData \<lparr>localTZA = 0, nowDate = 0, nowStamp = 0\<rparr> [] \<noteq>
   parseReceiptData \<lparr>localTZA = 0, nowDate = 86400000, nowStamp = 7\<rparr> []"
  by (simp add: parse_whitespace[OF spaces3_space(2)] isoDate_examples showNat_examples) (simp add: js_def)

section \<open>Dates: the claims\<close>

text \<open>
  Claim C3. The spec, and the sample receipt of the repository's README, expect the line
  \<open>Date: 15/01/2024\<close> to give the purchase date \<open>2024-01-15\<close>. The parser does not:
  the first date pattern matches \<open>15/01/2024\<close>, the parser reads it month/day/year, and
  the Date object counts month 15 of 2024 on into 2025 instead of being invalid, so neither
  the test of \<open>isNaN(date.getTime())\<close> nor the catch block sees a failure. purchase_date
  is \<open>2025-03-01\<close> with the local time zone at UTC, and \<open>2025-02-28\<close> with the local
  time zone five and a half hours ahead of UTC.
\<close>

theorem date_15_01_2024_rollover:
  "exec rx_date1 (js ''Date: 15/01/2024'') =
     Some (6, js ''15/01/2024'', [js ''15'', js ''01'', js ''2024'']) \<and>
   purchase_date (parseReceiptData \<lparr>localTZA = 0, nowDate = 0, nowStamp = 0\<rparr>
                    (js ''Date: 15/01/2024'')) = js ''2025-03-01'' \<and>
   purchase_date (parseReceiptData \<lparr>localTZA = 19800000, nowDate = 0, nowStamp = 0\<rparr>
                    (js ''Date: 15/01/2024'')) = js ''2025-02-28''"
proof -
  have n: "\<forall>k<length ([]::jsstring). rx_date1 ([], drop k ([] @ dateLine @ [])) = []" by simp
  have "exec rx_date1 ([] @ dateLine @ []) =
          Some (length ([]::jsstring) + 6, js ''15/01/2024'', [js ''15'', js ''01'', js ''2024''])"
    by (rule exec_dateLine[OF n])
  moreover have "purchase_date (parseReceiptData \<lparr>localTZA = 0, nowDate = 0, nowStamp = 0\<rparr>
                    ([] @ dateLine @ [])) = isoDate (makeDay 2024 (15 - 1) 1 * msPerDay - 0)"
    using dateLine_reading[OF n, of "\<lparr>localTZA = 0, nowDate = 0, nowStamp = 0\<rparr>"]
    by (simp add: msPerDay_def)
  moreover have "purchase_date (parseReceiptData \<lparr>localTZA = 19800000, nowDate = 0, nowStamp = 0\<rparr>
                    ([] @ dateLine @ [])) = isoDate (makeDay 2024 (15 - 1) 1 * msPerDay - 19800000)"
    using dateLine_reading[OF n, of "\<lparr>localTZA = 19800000, nowDate = 0, nowStamp = 0\<rparr>"]
    by (simp add: msPerDay_def)
  ultimately show ?thesis
    by (simp add: dateLine_def makeDay_2024_14_1 msPerDay_def isoDate_numerals isoDate_numerals2)
qed

text \<open>
  Claim C6 (amended). For every input whose first match of the first date pattern has the
  tokens a, b, c, where a is a month (1 to 12) and b is a day of that month in the year read
  from c, and for a local time zone at UTC or behind it by less than a day: the match is
  read month/day/year, whatever the digits of the year token. The year is the value of c,
  plus 2000 when that value is below 100, and purchase_date is the ISO form YYYY-MM-DD of
  that year, the month a and the day b.
\<close>

theorem date1_month_day_year:
  assumes "exec rx_date1 ocrText = Some (i, m0, [a, b, c])"
    and "1 \<le> digitsVal a" and "digitsVal a \<le> 12"
    and "1 \<le> digitsVal b"
    and "int (digitsVal b) \<le> daysInMonth (fullYear (int (digitsVal c))) (int (digitsVal a))"
    and "- msPerDay < localTZA e" and "localTZA e \<le> 0"
  shows "parseDate (localTZA e) ocrText =
           Some (isoYMD (fullYear (int (digitsVal c))) (int (digitsVal a)) (int (digitsVal b))) \<and>
         purchase_date (parseReceiptData e ocrText) =
           isoYMD (fullYear (int (digitsVal c))) (int (digitsVal a)) (int (digitsVal b))"
  using date1_valid_reading[OF assms] purchase_date_detected[of e ocrText] by simp

theorem date1_month_day_year_witness:
  "exec rx_date1 receiptAndDate = Some (19, js ''01/02/2024'', [js ''01'', js ''02'', js ''2024'']) \<and>
   purchase_date (parseReceiptData \<lparr>localTZA = 0, nowDate = 0, nowStamp = 0\<rparr> receiptAndDate)
     = js ''2024-01-02'' \<and>
   exec rx_date1 (js ''12/31/99'') = Some (0, js ''12/31/99'', [js ''12'', js ''31'', js ''99'']) \<and>
   purchase_date (parseReceiptData \<lparr>localTZA = - 18000000, nowDate = 0, nowStamp = 0\<rparr>
                    (js ''12/31/99'')) = js ''2099-12-31''"
  using date1_month_day_year[OF exec_date1_receiptAndDate,
      of "\<lparr>localTZA = 0, nowDate = 0, nowStamp = 0\<rparr>"]
    date1_month_day_year[OF exec_date1_123199,
      of "\<lparr>localTZA = - 18000000, nowDate = 0, nowStamp = 0\<rparr>"]
  by (simp add: exec_date1_receiptAndDate exec_date1_123199 digitsVal_examples digitsVal_examples2
      fullYear_def daysInMonth_examples isoYMD_examples msPerDay_def)

text \<open>
  Claim C6, as stated, fails. In \<open>01/02/2024\<close> the year token has four digits and begins
  with \<open>20\<close>, yet the middle token is read as the day and the first as the month: the
  result is \<open>2024-01-02\<close>, not \<open>2024-02-01\<close>.
\<close>

theorem date1_policy_counterexample:
  "exec rx_date1 (js ''01/02/2024'') = Some (0, js ''01/02/2024'', [js ''01'', js ''02'', js ''2024'']) \<and>
   parseDate 0 (js ''01/02/2024'') = Some (js ''2024-01-02'') \<and>
   js ''2024-01-02'' \<noteq> js ''2024-02-01''"
  by (simp add: exec_date1_examples parseDate_01_02_2024) (simp add: js_def)

end
